theory Spec2Isabelle
  imports Complex_Main "HOL-Library.Word" "HOL-Library.Multiset"
begin

section \<open>CPU scheduling simulator: the four schedulers of the Go program\<close>

text \<open>
  The program reads a list of processes and prints, for each of four scheduling
  disciplines, a Gantt strip, a table of rows and three averages. Every field of a
  process is a Go \<open>int64\<close>: a 64-bit word whose arithmetic wraps around and whose
  comparisons are signed. The running totals and the averages are \<open>float64\<close>.
\<close>

subsection \<open>Data\<close>

type_synonym int64 = "64 word"

record Process =
  ProcessID :: int64
  ArrivalTime :: int64
  BurstDuration :: int64
  Priority :: int64

record TimeSlice =
  PID :: int64
  Start :: int64
  Stop :: int64

text \<open>
  A row of the schedule table. The program stores the seven columns as the decimal
  strings \<open>fmt.Sprint\<close> prints for the seven \<open>int64\<close> values; the model keeps the
  values themselves, in the order of the columns.
\<close>

record ScheduleRow =
  row_id :: int64
  row_priority :: int64
  row_burst :: int64
  row_arrival :: int64
  row_wait :: int64
  row_turnaround :: int64
  row_completion :: int64

text \<open>
  A \<open>float64\<close> as far as the averages need it: a finite value (kept exact, rounding is
  not modelled) or one of the three non-finite values of IEEE 754.
\<close>

datatype float64 = Finite real | PosInf | NegInf | NaN

text \<open>
  Division of two finite \<open>float64\<close> values. Go does not panic on a floating-point
  division by zero: \<open>0 / 0\<close> is NaN and \<open>x / 0\<close> is an infinity with the sign of \<open>x\<close>
  (the divisors here are conversions of integers, so a zero divisor is \<open>+0\<close>).
\<close>

definition fdiv :: "real \<Rightarrow> real \<Rightarrow> float64" where
  "fdiv x y =
     (if y \<noteq> 0 then Finite (x / y)
      else if x = 0 then NaN
      else if 0 < x then PosInf else NegInf)"

text \<open>\<open>float64(v)\<close> for an \<open>int64\<close> value \<open>v\<close>: its signed value.\<close>

definition float64_of :: "int64 \<Rightarrow> real" where
  "float64_of v = real_of_int (sint v)"

text \<open>
  What a scheduler hands to \<open>outputGantt\<close> and \<open>outputSchedule\<close>, together with the
  contents of the caller's slice \<open>processes\<close> when the scheduler returns (a Go slice
  shares its backing array with the caller's).
\<close>

record 'r Output =
  schedule :: "'r list"
  gantt :: "TimeSlice list"
  aveWait :: float64
  aveTurnaround :: float64
  aveThroughput :: float64
  processes_after :: "Process list"

definition mk_row :: "Process \<Rightarrow> int64 \<Rightarrow> int64 \<Rightarrow> int64 \<Rightarrow> ScheduleRow" where
  "mk_row p w t c =
     \<lparr>row_id = ProcessID p, row_priority = Priority p, row_burst = BurstDuration p,
      row_arrival = ArrivalTime p, row_wait = w, row_turnaround = t, row_completion = c\<rparr>"

subsection \<open>First-come, first-serve\<close>

record fcfs_state =
  f_serviceTime :: int64
  f_totalWait :: real
  f_totalTurnaround :: real
  f_lastCompletion :: real
  f_waitingTime :: int64
  f_schedule :: "ScheduleRow list"
  f_gantt :: "TimeSlice list"

definition fcfs_init :: fcfs_state where
  "fcfs_init =
     \<lparr>f_serviceTime = 0, f_totalWait = 0, f_totalTurnaround = 0, f_lastCompletion = 0,
      f_waitingTime = 0, f_schedule = [], f_gantt = []\<rparr>"

text \<open>One iteration of the loop over \<open>processes\<close>; the row is \<open>schedule[i]\<close>.\<close>

definition fcfs_step :: "fcfs_state \<Rightarrow> Process \<Rightarrow> fcfs_state" where
  "fcfs_step s p =
     (let waitingTime =
            (if 0 <s ArrivalTime p then f_serviceTime s - ArrivalTime p
             else f_waitingTime s);
          start = waitingTime + ArrivalTime p;
          turnaround = BurstDuration p + waitingTime;
          completion = BurstDuration p + ArrivalTime p + waitingTime;
          serviceTime = f_serviceTime s + BurstDuration p
      in \<lparr>f_serviceTime = serviceTime,
          f_totalWait = f_totalWait s + float64_of waitingTime,
          f_totalTurnaround = f_totalTurnaround s + float64_of turnaround,
          f_lastCompletion = float64_of completion,
          f_waitingTime = waitingTime,
          f_schedule = f_schedule s @ [mk_row p waitingTime turnaround completion],
          f_gantt = f_gantt s @ [\<lparr>PID = ProcessID p, Start = start, Stop = serviceTime\<rparr>]\<rparr>)"

fun fcfs_loop :: "fcfs_state \<Rightarrow> Process list \<Rightarrow> fcfs_state" where
  "fcfs_loop s [] = s"
| "fcfs_loop s (p # ps) = fcfs_loop (fcfs_step s p) ps"

definition FCFSSchedule :: "Process list \<Rightarrow> ScheduleRow Output" where
  "FCFSSchedule processes =
     (let s = fcfs_loop fcfs_init processes;
          count = real (length processes)
      in \<lparr>schedule = f_schedule s, gantt = f_gantt s,
          aveWait = fdiv (f_totalWait s) count,
          aveTurnaround = fdiv (f_totalTurnaround s) count,
          aveThroughput = fdiv count (f_lastCompletion s),
          processes_after = processes\<rparr>)"

subsection \<open>Shortest-job-first, preemptive, one time unit per iteration\<close>

definition MaxInt64 :: int64 where
  "MaxInt64 = 9223372036854775807"

record sjf_state =
  s_remainingBursts :: "int64 list"
  s_completed :: "bool list"
  s_currentTime :: int64
  s_totalWait :: real
  s_totalTurnaround :: real
  s_lastCompletion :: real
  s_waitingTime :: int64
  s_schedule :: "ScheduleRow option list"
  s_gantt :: "TimeSlice list"
  s_procDone :: nat

text \<open>
  The scan for the shortest job: the pair is \<open>(shortestIdx, shortestTime)\<close>, with
  \<open>None\<close> for the index \<open>-1\<close>. The indices scanned are those of \<open>processes\<close>, and
  \<open>completed\<close> and \<open>remainingBursts\<close> have its length.
\<close>

definition sjf_scan_step ::
  "Process list \<Rightarrow> bool list \<Rightarrow> int64 list \<Rightarrow> int64 \<Rightarrow> nat option \<times> int64 \<Rightarrow> nat
     \<Rightarrow> nat option \<times> int64" where
  "sjf_scan_step processes completed remainingBursts currentTime acc i =
     (if \<not> completed ! i \<and> ArrivalTime (processes ! i) \<le>s currentTime
         \<and> remainingBursts ! i <s snd acc
      then (Some i, remainingBursts ! i) else acc)"

definition sjf_scan ::
  "Process list \<Rightarrow> bool list \<Rightarrow> int64 list \<Rightarrow> int64 \<Rightarrow> nat option \<times> int64" where
  "sjf_scan processes completed remainingBursts currentTime =
     foldl (sjf_scan_step processes completed remainingBursts currentTime)
       (None, MaxInt64) [0..<length processes]"

definition sjf_init :: "Process list \<Rightarrow> sjf_state" where
  "sjf_init processes =
     \<lparr>s_remainingBursts = map BurstDuration processes,
      s_completed = replicate (length processes) False,
      s_currentTime = 0, s_totalWait = 0, s_totalTurnaround = 0, s_lastCompletion = 0,
      s_waitingTime = 0, s_schedule = replicate (length processes) None, s_gantt = [],
      s_procDone = 0\<rparr>"

text \<open>The body of the loop \<open>for procDone < n\<close>.\<close>

definition sjf_body :: "Process list \<Rightarrow> sjf_state \<Rightarrow> sjf_state" where
  "sjf_body processes s =
     (case fst (sjf_scan processes (s_completed s) (s_remainingBursts s) (s_currentTime s)) of
        None \<Rightarrow> s\<lparr>s_currentTime := s_currentTime s + 1\<rparr>
      | Some shortestIdx \<Rightarrow>
          (let currentTime = s_currentTime s + 1;
               remainingBursts =
                 (s_remainingBursts s)[shortestIdx := s_remainingBursts s ! shortestIdx - 1]
           in if remainingBursts ! shortestIdx = 0 then
                (let p = processes ! shortestIdx;
                     waitingTime = currentTime - BurstDuration p - ArrivalTime p;
                     turnaround = BurstDuration p + waitingTime;
                     completion = currentTime
                 in \<lparr>s_remainingBursts = remainingBursts,
                     s_completed = (s_completed s)[shortestIdx := True],
                     s_currentTime = currentTime,
                     s_totalWait = s_totalWait s + float64_of waitingTime,
                     s_totalTurnaround = s_totalTurnaround s + float64_of turnaround,
                     s_lastCompletion = float64_of completion,
                     s_waitingTime = waitingTime,
                     s_schedule = (s_schedule s)
                       [shortestIdx := Some (mk_row p waitingTime turnaround completion)],
                     s_gantt = s_gantt s @
                       [\<lparr>PID = ProcessID p,
                         Start = currentTime - BurstDuration p + waitingTime,
                         Stop = currentTime\<rparr>],
                     s_procDone = Suc (s_procDone s)\<rparr>)
              else s\<lparr>s_currentTime := currentTime, s_remainingBursts := remainingBursts\<rparr>))"

text \<open>
  The loop may run forever, so it is given fuel: \<open>None\<close> when the fuel runs out before
  \<open>procDone\<close> reaches \<open>n\<close>.
\<close>

fun sjf_loop :: "nat \<Rightarrow> Process list \<Rightarrow> sjf_state \<Rightarrow> sjf_state option" where
  "sjf_loop 0 processes s =
     (if s_procDone s < length processes then None else Some s)"
| "sjf_loop (Suc fuel) processes s =
     (if s_procDone s < length processes then sjf_loop fuel processes (sjf_body processes s)
      else Some s)"

definition sjf_output :: "Process list \<Rightarrow> sjf_state \<Rightarrow> ScheduleRow option Output" where
  "sjf_output processes s =
     (let count = real (length processes)
      in \<lparr>schedule = s_schedule s, gantt = s_gantt s,
          aveWait = fdiv (s_totalWait s) count,
          aveTurnaround = fdiv (s_totalTurnaround s) count,
          aveThroughput = fdiv count (s_lastCompletion s),
          processes_after = processes\<rparr>)"

definition SJFSchedule :: "nat \<Rightarrow> Process list \<Rightarrow> ScheduleRow option Output option" where
  "SJFSchedule fuel processes =
     map_option (sjf_output processes) (sjf_loop fuel processes (sjf_init processes))"

subsection \<open>Sorting the slice in place\<close>

text \<open>
  \<open>sort.Slice\<close> belongs to Go's standard library. On a short slice it runs the insertion
  sort below: the element at \<open>i\<close> is swapped leftwards while the comparison \<open>lt\<close> puts
  it before its left neighbour. The second argument of \<open>insert_left\<close> is the part of the
  slice to the left of the element, nearest neighbour first. (On a long slice the library
  switches to a quicksort, which also returns a sorted permutation but may order ties
  differently.)
\<close>

fun insert_left :: "('a \<Rightarrow> 'a \<Rightarrow> bool) \<Rightarrow> 'a \<Rightarrow> 'a list \<Rightarrow> 'a list" where
  "insert_left lt x [] = [x]"
| "insert_left lt x (y # ys) =
     (if lt x y then y # insert_left lt x ys else x # y # ys)"

fun insertion_loop :: "('a \<Rightarrow> 'a \<Rightarrow> bool) \<Rightarrow> 'a list \<Rightarrow> 'a list \<Rightarrow> 'a list" where
  "insertion_loop lt left [] = rev left"
| "insertion_loop lt left (x # xs) = insertion_loop lt (insert_left lt x left) xs"

definition sort_Slice :: "('a \<Rightarrow> 'a \<Rightarrow> bool) \<Rightarrow> 'a list \<Rightarrow> 'a list" where
  "sort_Slice lt xs = insertion_loop lt [] xs"

subsection \<open>The scheduler labelled Priority\<close>

definition priority_less :: "Process \<Rightarrow> Process \<Rightarrow> bool" where
  "priority_less a b =
     (if ArrivalTime a = ArrivalTime b then BurstDuration a <s BurstDuration b
      else ArrivalTime a <s ArrivalTime b)"

record prio_state =
  p_currentTime :: int64
  p_totalWait :: real
  p_totalTurnaround :: real
  p_lastCompletion :: real
  p_waitingTime :: int64
  p_schedule :: "ScheduleRow list"
  p_gantt :: "TimeSlice list"

definition prio_init :: prio_state where
  "prio_init =
     \<lparr>p_currentTime = 0, p_totalWait = 0, p_totalTurnaround = 0, p_lastCompletion = 0,
      p_waitingTime = 0, p_schedule = [], p_gantt = []\<rparr>"

definition prio_step :: "prio_state \<Rightarrow> Process \<Rightarrow> prio_state" where
  "prio_step s p =
     (let late = p_currentTime s <s ArrivalTime p;
          waitingTime = (if late then 0 else p_currentTime s - ArrivalTime p);
          arrived = (if late then ArrivalTime p else p_currentTime s);
          turnaround = BurstDuration p + waitingTime;
          currentTime = arrived + BurstDuration p;
          completion = currentTime
      in \<lparr>p_currentTime = currentTime,
          p_totalWait = p_totalWait s + float64_of waitingTime,
          p_totalTurnaround = p_totalTurnaround s + float64_of turnaround,
          p_lastCompletion = float64_of completion,
          p_waitingTime = waitingTime,
          p_schedule = p_schedule s @ [mk_row p waitingTime turnaround completion],
          p_gantt = p_gantt s @
            [\<lparr>PID = ProcessID p, Start = currentTime - BurstDuration p, Stop = currentTime\<rparr>]\<rparr>)"

fun prio_loop :: "prio_state \<Rightarrow> Process list \<Rightarrow> prio_state" where
  "prio_loop s [] = s"
| "prio_loop s (p # ps) = prio_loop (prio_step s p) ps"

definition SJFPrioritySchedule :: "Process list \<Rightarrow> ScheduleRow Output" where
  "SJFPrioritySchedule processes0 =
     (let processes = sort_Slice priority_less processes0;
          s = prio_loop prio_init processes;
          count = real (length processes)
      in \<lparr>schedule = p_schedule s, gantt = p_gantt s,
          aveWait = fdiv (p_totalWait s) count,
          aveTurnaround = fdiv (p_totalTurnaround s) count,
          aveThroughput = fdiv count (p_lastCompletion s),
          processes_after = processes\<rparr>)"

subsection \<open>Round-robin\<close>

text \<open>The constant expression \<open>(5 + 9 + 6) / 3\<close>, an integer division.\<close>

definition quantum :: int64 where
  "quantum = word_of_int ((5 + 9 + 6) div 3)"

definition rr_less :: "Process \<Rightarrow> Process \<Rightarrow> bool" where
  "rr_less a b = (ArrivalTime a <s ArrivalTime b)"

record rr_state =
  r_currentTime :: int64
  r_totalWait :: real
  r_totalTurnaround :: real
  r_lastCompletion :: real
  r_waitingTime :: int64
  r_gantt :: "TimeSlice list"
  r_remainingBursts :: "int64 list"
  r_completionTimes :: "int64 list"
  r_queue :: "nat list"
  r_completedProcesses :: nat

definition rr_init :: "Process list \<Rightarrow> rr_state" where
  "rr_init processes =
     \<lparr>r_currentTime = 0, r_totalWait = 0, r_totalTurnaround = 0, r_lastCompletion = 0,
      r_waitingTime = 0, r_gantt = [],
      r_remainingBursts = map BurstDuration processes,
      r_completionTimes = replicate (length processes) 0,
      r_queue = (if 0 < length processes then [0] else []),
      r_completedProcesses = 0\<rparr>"

text \<open>
  The admission loop at the end of an iteration: \<open>i\<close> starts at \<open>completedProcesses\<close>,
  and each admitted index is pushed to the back of the queue and counted in
  \<open>completedProcesses\<close>.
\<close>

function rr_admit :: "Process list \<Rightarrow> int64 \<Rightarrow> nat \<Rightarrow> nat list \<times> nat \<Rightarrow> nat list \<times> nat" where
  "rr_admit processes currentTime i (queue, completedProcesses) =
     (if i < length processes \<and> ArrivalTime (processes ! i) \<le>s currentTime
      then rr_admit processes currentTime (Suc i) (queue @ [i], Suc completedProcesses)
      else (queue, completedProcesses))"
  by pat_completeness auto
termination
  by (relation "measure (\<lambda>(processes, currentTime, i, qc). length processes - i)") auto

declare rr_admit.simps [simp del]

text \<open>
  The body of the loop \<open>for queue.Len() > 0\<close>, for a queue that is not empty. Every index
  in the queue is an index of \<open>processes\<close>: the loop pushes only \<open>0\<close> for a non-empty
  slice, an index it has popped, and an \<open>i < len(processes)\<close>.
\<close>

definition rr_body :: "Process list \<Rightarrow> rr_state \<Rightarrow> rr_state" where
  "rr_body processes s =
     (let currentIdx = hd (r_queue s);
          queue = tl (r_queue s);
          currentProcess = processes ! currentIdx;
          s1 =
            (if r_remainingBursts s ! currentIdx \<le>s quantum then
               (let currentTime = r_currentTime s + r_remainingBursts s ! currentIdx;
                    waitingTime =
                      currentTime - BurstDuration currentProcess - ArrivalTime currentProcess;
                    turnaround = BurstDuration currentProcess + waitingTime
                in \<lparr>r_currentTime = currentTime,
                    r_totalWait = r_totalWait s + float64_of waitingTime,
                    r_totalTurnaround = r_totalTurnaround s + float64_of turnaround,
                    r_lastCompletion = float64_of currentTime,
                    r_waitingTime = waitingTime,
                    r_gantt = r_gantt s @
                      [\<lparr>PID = ProcessID currentProcess,
                        Start = currentTime - BurstDuration currentProcess + waitingTime,
                        Stop = currentTime\<rparr>],
                    r_remainingBursts = (r_remainingBursts s)[currentIdx := 0],
                    r_completionTimes = (r_completionTimes s)[currentIdx := currentTime],
                    r_queue = queue,
                    r_completedProcesses = Suc (r_completedProcesses s)\<rparr>)
             else
               s\<lparr>r_currentTime := r_currentTime s + quantum,
                 r_remainingBursts := (r_remainingBursts s)
                   [currentIdx := r_remainingBursts s ! currentIdx - quantum],
                 r_queue := queue @ [currentIdx]\<rparr>);
          admitted =
            rr_admit processes (r_currentTime s1) (r_completedProcesses s1)
              (r_queue s1, r_completedProcesses s1)
      in s1\<lparr>r_queue := fst admitted, r_completedProcesses := snd admitted\<rparr>)"

fun rr_loop :: "nat \<Rightarrow> Process list \<Rightarrow> rr_state \<Rightarrow> rr_state option" where
  "rr_loop 0 processes s = (if r_queue s = [] then Some s else None)"
| "rr_loop (Suc fuel) processes s =
     (if r_queue s = [] then Some s else rr_loop fuel processes (rr_body processes s))"

text \<open>The rows, written after the loop from \<open>completionTimes\<close>.\<close>

definition rr_row :: "Process \<times> int64 \<Rightarrow> ScheduleRow" where
  "rr_row pc =
     (let p = fst pc;
          waitingTime = snd pc - BurstDuration p - ArrivalTime p;
          turnaround = BurstDuration p + waitingTime
      in mk_row p waitingTime turnaround (snd pc))"

definition rr_output :: "Process list \<Rightarrow> rr_state \<Rightarrow> ScheduleRow Output" where
  "rr_output processes s =
     (let count = real (length processes)
      in \<lparr>schedule = map rr_row (zip processes (r_completionTimes s)),
          gantt = r_gantt s,
          aveWait = fdiv (r_totalWait s) count,
          aveTurnaround = fdiv (r_totalTurnaround s) count,
          aveThroughput = fdiv count (r_lastCompletion s),
          processes_after = processes\<rparr>)"

definition RRSchedule :: "nat \<Rightarrow> Process list \<Rightarrow> ScheduleRow Output option" where
  "RRSchedule fuel processes0 =
     (let processes = sort_Slice rr_less processes0
      in map_option (rr_output processes) (rr_loop fuel processes (rr_init processes)))"

subsection \<open>Predicates and inputs used in the statements\<close>

text \<open>A process written as in the schedule table: id, arrival, burst, priority.\<close>

definition mkProcess :: "int64 \<Rightarrow> int64 \<Rightarrow> int64 \<Rightarrow> int64 \<Rightarrow> Process" where
  "mkProcess pid arrival burst priority =
     \<lparr>ProcessID = pid, ArrivalTime = arrival, BurstDuration = burst, Priority = priority\<rparr>"

text \<open>The two identities every row has to satisfy.\<close>

definition row_ok :: "ScheduleRow \<Rightarrow> bool" where
  "row_ok r \<longleftrightarrow>
     row_turnaround r = row_burst r + row_wait r \<and>
     row_completion r = row_arrival r + row_wait r + row_burst r"

text \<open>
  A row of the preemptive scheduler is \<open>nil\<close> until its process completes. The three
  predicates: not yet written or satisfying the identities, written, and both.
\<close>

definition opt_row_ok :: "ScheduleRow option \<Rightarrow> bool" where
  "opt_row_ok r = (case r of None \<Rightarrow> True | Some row \<Rightarrow> row_ok row)"

definition is_written :: "ScheduleRow option \<Rightarrow> bool" where
  "is_written r = (case r of None \<Rightarrow> False | Some row \<Rightarrow> True)"

definition written_row_ok :: "ScheduleRow option \<Rightarrow> bool" where
  "written_row_ok r = (case r of None \<Rightarrow> False | Some row \<Rightarrow> row_ok row)"

text \<open>
  The same two identities on the signed values the table prints, and the condition under
  which the two sums do not overflow an \<open>int64\<close>.
\<close>

definition row_ok_signed :: "ScheduleRow \<Rightarrow> bool" where
  "row_ok_signed r \<longleftrightarrow>
     sint (row_turnaround r) = sint (row_burst r) + sint (row_wait r) \<and>
     sint (row_completion r) = sint (row_arrival r) + sint (row_wait r) + sint (row_burst r)"

definition fits_int64 :: "int \<Rightarrow> bool" where
  "fits_int64 k \<longleftrightarrow> - 9223372036854775808 \<le> k \<and> k \<le> 9223372036854775807"

definition row_fits :: "ScheduleRow \<Rightarrow> bool" where
  "row_fits r \<longleftrightarrow>
     fits_int64 (sint (row_burst r) + sint (row_wait r)) \<and>
     fits_int64 (sint (row_arrival r) + sint (row_wait r) + sint (row_burst r))"

text \<open>
  What holds of every row: the identities in wrap-around arithmetic, and on the signed
  values exactly when the sums do not overflow.
\<close>

definition row_identities :: "ScheduleRow \<Rightarrow> bool" where
  "row_identities r \<longleftrightarrow> row_ok r \<and> (row_ok_signed r \<longleftrightarrow> row_fits r)"

definition written_row_identities :: "ScheduleRow option \<Rightarrow> bool" where
  "written_row_identities r = (case r of None \<Rightarrow> False | Some row \<Rightarrow> row_identities row)"

text \<open>Two processes that arrive at 0, the first with the largest burst an \<open>int64\<close> holds.\<close>

definition example_overflow :: "Process list" where
  "example_overflow = [mkProcess 1 0 MaxInt64 0, mkProcess 2 0 1 0]"

text \<open>The input of the specification's first-come-first-serve example.\<close>

definition example_two :: "Process list" where
  "example_two = [mkProcess 1 0 5 0, mkProcess 2 1 3 0]"

text \<open>The round-robin example of the specification, and an input with a late arrival.\<close>

definition example_rr :: "Process list" where
  "example_rr = [mkProcess 1 0 10 0, mkProcess 2 1 4 0]"

definition example_skip :: "Process list" where
  "example_skip = [mkProcess 1 0 3 0, mkProcess 2 1 3 0, mkProcess 3 5 3 0, mkProcess 4 6 3 0]"

text \<open>Inputs, sorted by arrival, on which the processor is idle before the second arrival.\<close>

definition example_gap :: "Process list" where
  "example_gap = [mkProcess 1 0 1 0, mkProcess 2 5 1 0]"

definition example_idle :: "Process list" where
  "example_idle = [mkProcess 1 0 2 0, mkProcess 2 10 3 0]"

text \<open>The shortest-remaining-time example of the specification.\<close>

definition example_srtf :: "Process list" where
  "example_srtf =
     [mkProcess 1 0 8 0, mkProcess 2 1 4 0, mkProcess 3 2 9 0, mkProcess 4 3 5 0]"

text \<open>One process whose burst is the largest \<open>int64\<close>.\<close>

definition example_max :: "Process list" where
  "example_max = [mkProcess 1 0 MaxInt64 0]"

text \<open>What the schedulers hand on for an empty slice.\<close>

definition empty_output :: "'r Output" where
  "empty_output =
     \<lparr>schedule = [], gantt = [], aveWait = NaN, aveTurnaround = NaN, aveThroughput = NaN,
      processes_after = []\<rparr>"

text \<open>
  The orders the two sorting schedulers sort by, on signed values: by arrival then burst,
  and by arrival alone.
\<close>

definition arrival_burst_le :: "Process \<Rightarrow> Process \<Rightarrow> bool" where
  "arrival_burst_le a b \<longleftrightarrow>
     ArrivalTime a <s ArrivalTime b \<or>
     (ArrivalTime a = ArrivalTime b \<and> BurstDuration a \<le>s BurstDuration b)"

definition arrival_le :: "Process \<Rightarrow> Process \<Rightarrow> bool" where
  "arrival_le a b \<longleftrightarrow> ArrivalTime a \<le>s ArrivalTime b"

text \<open>A process and a row with the priority blanked, and a row read back as a process.\<close>

definition clear_priority :: "Process \<Rightarrow> Process" where
  "clear_priority p = p\<lparr>Priority := 0\<rparr>"

definition row_clear_priority :: "ScheduleRow \<Rightarrow> ScheduleRow" where
  "row_clear_priority r = r\<lparr>row_priority := 0\<rparr>"

definition row_process :: "ScheduleRow \<Rightarrow> Process" where
  "row_process r =
     \<lparr>ProcessID = row_id r, ArrivalTime = row_arrival r, BurstDuration = row_burst r,
      Priority = row_priority r\<rparr>"

text \<open>
  The specification's example for the Priority scheduler, and two inputs that differ in
  priorities only.
\<close>

definition example_unsorted :: "Process list" where
  "example_unsorted = [mkProcess 1 2 6 0, mkProcess 2 0 8 0]"

definition example_priorities :: "Process list" where
  "example_priorities = [mkProcess 1 2 6 9, mkProcess 2 0 8 1, mkProcess 3 0 8 5]"

definition example_priorities' :: "Process list" where
  "example_priorities' = [mkProcess 1 2 6 1, mkProcess 2 0 8 7, mkProcess 3 0 8 2]"

text \<open>The state of the loop with the priority column blanked.\<close>

definition prio_state_clear :: "prio_state \<Rightarrow> prio_state" where
  "prio_state_clear s = s\<lparr>p_schedule := map row_clear_priority (p_schedule s)\<rparr>"

subsection \<open>Invariants and measures of the two loops with fuel\<close>

text \<open>
  An index the scan can select: not complete, arrived, and with a remaining burst
  strictly below the initial \<open>shortestTime\<close>.
\<close>

definition sjf_candidate ::
  "Process list \<Rightarrow> bool list \<Rightarrow> int64 list \<Rightarrow> int64 \<Rightarrow> nat \<Rightarrow> bool" where
  "sjf_candidate processes completed remainingBursts currentTime i \<longleftrightarrow>
     \<not> completed ! i \<and> ArrivalTime (processes ! i) \<le>s currentTime \<and>
     remainingBursts ! i <s MaxInt64"

text \<open>What the scan has found after the first \<open>k\<close> indices.\<close>

definition scan_found ::
  "Process list \<Rightarrow> bool list \<Rightarrow> int64 list \<Rightarrow> int64 \<Rightarrow> nat \<Rightarrow> nat option \<times> int64
     \<Rightarrow> bool" where
  "scan_found ps cs rs t k acc =
     (case fst acc of
        None \<Rightarrow> snd acc = MaxInt64 \<and> list_all (\<lambda>i. \<not> sjf_candidate ps cs rs t i) [0..<k]
      | Some j \<Rightarrow>
          j < k \<and> sjf_candidate ps cs rs t j \<and> snd acc = rs ! j \<and>
          list_all (\<lambda>i. \<not> sjf_candidate ps cs rs t i \<or> rs ! j \<le>s rs ! i) [0..<k] \<and>
          list_all (\<lambda>i. \<not> sjf_candidate ps cs rs t i \<or> rs ! j <s rs ! i) [0..<j])"

text \<open>The number of \<open>true\<close> entries of \<open>completed\<close>.\<close>

definition done_count :: "bool list \<Rightarrow> nat" where
  "done_count cs = length (filter (\<lambda>c. c) cs)"

text \<open>
  The invariant under which the preemptive loop ends: \<open>procDone\<close> counts the completed
  processes, and every other process has a remaining burst from 1 to
  \<open>math.MaxInt64 - 1\<close>.
\<close>

definition sjf_inv :: "Process list \<Rightarrow> sjf_state \<Rightarrow> bool" where
  "sjf_inv ps s \<longleftrightarrow>
     length (s_remainingBursts s) = length ps \<and>
     length (s_completed s) = length ps \<and>
     s_procDone s = done_count (s_completed s) \<and>
     (\<forall>i<length ps. s_completed s ! i \<or>
        (0 <s s_remainingBursts s ! i \<and> s_remainingBursts s ! i <s MaxInt64))"

text \<open>
  The measure of the preemptive loop: the remaining work, then the number of idle steps
  until the clock reaches \<open>math.MaxInt64\<close>, where every process has arrived.
\<close>

definition sjf_work :: "sjf_state \<Rightarrow> nat" where
  "sjf_work s =
     (\<Sum>i<length (s_completed s).
        if s_completed s ! i then 0 else nat (sint (s_remainingBursts s ! i)))"

definition sjf_wrap :: "sjf_state \<Rightarrow> nat" where
  "sjf_wrap s = unat (MaxInt64 - s_currentTime s)"

text \<open>
  The invariant under which the preemptive loop never ends: process \<open>j\<close> is not complete
  and its remaining burst is at most 0 or equal to \<open>math.MaxInt64\<close>.
\<close>

definition sjf_stuck :: "Process list \<Rightarrow> sjf_state \<Rightarrow> nat \<Rightarrow> bool" where
  "sjf_stuck ps s j \<longleftrightarrow>
     j < length ps \<and>
     length (s_remainingBursts s) = length ps \<and>
     length (s_completed s) = length ps \<and>
     s_procDone s = done_count (s_completed s) \<and>
     \<not> s_completed s ! j \<and>
     (s_remainingBursts s ! j \<le>s 0 \<or> s_remainingBursts s ! j = MaxInt64)"

text \<open>At the exit of the loop every row is written.\<close>

definition sjf_rows_inv :: "Process list \<Rightarrow> sjf_state \<Rightarrow> bool" where
  "sjf_rows_inv ps s \<longleftrightarrow>
     length (s_schedule s) = length ps \<and>
     length (s_completed s) = length ps \<and>
     length (s_remainingBursts s) = length ps \<and>
     s_procDone s = done_count (s_completed s) \<and>
     (\<forall>i<length ps. s_completed s ! i \<longrightarrow> is_written (s_schedule s ! i))"

text \<open>A row whose wait is not negative.\<close>

definition wait_nonneg :: "ScheduleRow \<Rightarrow> bool" where
  "wait_nonneg r \<longleftrightarrow> 0 \<le>s row_wait r"

text \<open>
  Round-robin: every queued index is an index of the slice; the measure is the work
  of the processes that still need more than a quantum, then the length of the queue
  plus twice the number of indices the admission cursor has not passed.
\<close>

definition rr_inv :: "Process list \<Rightarrow> rr_state \<Rightarrow> bool" where
  "rr_inv ps s \<longleftrightarrow>
     length (r_remainingBursts s) = length ps \<and> list_all (\<lambda>k. k < length ps) (r_queue s)"

definition rr_heavy :: "rr_state \<Rightarrow> nat" where
  "rr_heavy s =
     (\<Sum>k<length (r_remainingBursts s).
        if quantum <s r_remainingBursts s ! k then nat (sint (r_remainingBursts s ! k)) else 0)"

definition rr_light :: "rr_state \<Rightarrow> nat" where
  "rr_light s =
     length (r_queue s) + 2 * (length (r_remainingBursts s) - r_completedProcesses s)"

text \<open>
  The preemptive scheduler while its clock does not wrap around: no arrival is negative
  or later than \<open>A\<close>, every burst is positive, and \<open>A\<close> plus all bursts stays below
  \<open>math.MaxInt64\<close>. Then the clock is at most \<open>A\<close> plus the work done, and a process
  that has run \<open>k\<close> units has done so after its arrival, so the clock is at least its
  arrival plus \<open>k\<close>.
\<close>

definition opt_wait_nonneg :: "ScheduleRow option \<Rightarrow> bool" where
  "opt_wait_nonneg r = (case r of None \<Rightarrow> True | Some row \<Rightarrow> wait_nonneg row)"

definition sjf_left :: "sjf_state \<Rightarrow> nat \<Rightarrow> int" where
  "sjf_left s i = (if s_completed s ! i then 0 else sint (s_remainingBursts s ! i))"

definition sjf_done_work :: "Process list \<Rightarrow> sjf_state \<Rightarrow> int" where
  "sjf_done_work ps s = (\<Sum>i<length ps. sint (BurstDuration (ps ! i)) - sjf_left s i)"

definition sjf_fits :: "Process list \<Rightarrow> int \<Rightarrow> bool" where
  "sjf_fits ps A \<longleftrightarrow>
     0 \<le> A \<and>
     list_all (\<lambda>p. 0 \<le>s ArrivalTime p \<and> sint (ArrivalTime p) \<le> A \<and> 0 <s BurstDuration p) ps \<and>
     A + (\<Sum>i<length ps. sint (BurstDuration (ps ! i))) < 9223372036854775807"

definition sjf_clock_inv :: "Process list \<Rightarrow> int \<Rightarrow> sjf_state \<Rightarrow> bool" where
  "sjf_clock_inv ps A s \<longleftrightarrow>
     0 \<le> sint (s_currentTime s) \<and>
     sint (s_currentTime s) \<le> A + sjf_done_work ps s \<and>
     (\<forall>i<length ps. \<not> s_completed s ! i \<longrightarrow>
        sint (s_remainingBursts s ! i) \<le> sint (BurstDuration (ps ! i)) \<and>
        (sint (s_remainingBursts s ! i) < sint (BurstDuration (ps ! i)) \<longrightarrow>
           sint (ArrivalTime (ps ! i))
             + (sint (BurstDuration (ps ! i)) - sint (s_remainingBursts s ! i))
           \<le> sint (s_currentTime s))) \<and>
     list_all opt_wait_nonneg (s_schedule s)"

text \<open>
  The slice the preemptive scheduler and round-robin record when process \<open>p\<close> completes
  at time \<open>Stop\<close>: with \<open>wait = Stop - burst - arrival\<close> it starts at
  \<open>Stop - burst + wait\<close>.
\<close>

definition completion_slice :: "Process \<Rightarrow> TimeSlice \<Rightarrow> bool" where
  "completion_slice p g \<longleftrightarrow>
     PID g = ProcessID p \<and>
     Start g = Stop g - BurstDuration p + (Stop g - BurstDuration p - ArrivalTime p)"

definition completion_slices :: "Process list \<Rightarrow> TimeSlice list \<Rightarrow> bool" where
  "completion_slices ps gs = list_all (\<lambda>g. list_ex (\<lambda>p. completion_slice p g) ps) gs"

section \<open>Verification\<close>

text \<open>Rules for evaluating the definitions on concrete inputs.\<close>

lemma sjf_loop_unfold:
  "sjf_loop fuel ps s =
     (if s_procDone s < length ps
      then (case fuel of 0 \<Rightarrow> None | Suc f \<Rightarrow> sjf_loop f ps (sjf_body ps s))
      else Some s)"
  by (cases fuel) simp_all

lemma rr_loop_unfold:
  "rr_loop fuel ps s =
     (if r_queue s = [] then Some s
      else (case fuel of 0 \<Rightarrow> None | Suc f \<Rightarrow> rr_loop f ps (rr_body ps s)))"
  by (cases fuel) simp_all

lemmas int64_eval = word_sless_alt word_sle_eq

lemmas common_eval =
  mk_row_def mkProcess_def Let_def fdiv_def float64_of_def sort_Slice_def int64_eval

lemmas sjf_eval =
  SJFSchedule_def sjf_output_def sjf_init_def sjf_body_def sjf_scan_def sjf_scan_step_def
  sjf_loop_unfold MaxInt64_def

lemmas rr_eval =
  RRSchedule_def rr_output_def rr_init_def rr_body_def rr_admit.simps rr_row_def
  rr_loop_unfold quantum_def rr_less_def

lemmas fcfs_eval = FCFSSchedule_def fcfs_init_def fcfs_step_def

lemmas prio_eval = SJFPrioritySchedule_def prio_init_def prio_step_def priority_less_def

subsection \<open>Signed 64-bit arithmetic\<close>

lemma sint_MaxInt64: "sint MaxInt64 = 9223372036854775807"
  by (simp add: MaxInt64_def)

lemma sle_MaxInt64: "(x :: int64) \<le>s MaxInt64"
  using sint_lt [of x] by (simp add: word_sle_eq sint_MaxInt64)

lemma MaxInt64_not_zero: "MaxInt64 \<noteq> 0"
  by (simp add: MaxInt64_def)

lemma sint_pred:
  assumes "- 9223372036854775808 < sint (x :: int64)"
  shows "sint (x - 1) = sint x - 1"
proof -
  have "sint (x - 1) = signed_take_bit 63 (sint x - 1)"
    by (simp add: sint_word_ariths)
  also have "\<dots> = sint x - 1"
    using assms sint_lt [of x] by (intro signed_take_bit_int_eq_self) simp_all
  finally show ?thesis .
qed

lemma MinInt64_pred:
  assumes "sint (x :: int64) = - 9223372036854775808"
  shows "x - 1 = MaxInt64"
proof -
  have "sint x = sint (- 9223372036854775808 :: int64)"
    using assms by simp
  then have "x = - 9223372036854775808"
    by (rule signed_word_eqI)
  then show ?thesis
    by (simp add: MaxInt64_def)
qed

lemma nonpositive_pred:
  assumes "(x :: int64) \<le>s 0"
  shows "x - 1 \<noteq> 0 \<and> (x - 1 \<le>s 0 \<or> x - 1 = MaxInt64)"
proof (cases "sint x = - 9223372036854775808")
  case True
  then show ?thesis
    using MinInt64_pred [of x] MaxInt64_not_zero by simp
next
  case False
  with sint_ge [of x] have "- 9223372036854775808 < sint x" by simp
  then have "sint (x - 1) = sint x - 1" by (rule sint_pred)
  with assms have neg: "sint (x - 1) < 0" by (simp add: word_sle_eq)
  then have "x - 1 \<noteq> 0" by auto
  with neg show ?thesis by (simp add: word_sle_eq)
qed

lemma sint_succ:
  assumes "sint (x :: int64) < 9223372036854775807"
  shows "sint (x + 1) = sint x + 1"
proof -
  have "sint (x + 1) = signed_take_bit 63 (sint x + 1)"
    by (simp add: sint_word_ariths)
  also have "\<dots> = sint x + 1"
    using assms sint_ge [of x] by (intro signed_take_bit_int_eq_self) simp_all
  finally show ?thesis .
qed

lemma sint_diff:
  assumes "0 \<le> sint (a :: int64)" and "sint a \<le> sint c"
  shows "sint (c - a) = sint c - sint a"
proof -
  have "sint (c - a) = signed_take_bit 63 (sint c - sint a)"
    by (simp add: sint_word_ariths)
  also have "\<dots> = sint c - sint a"
    using assms sint_lt [of c] by (intro signed_take_bit_int_eq_self) simp_all
  finally show ?thesis .
qed

lemma fits_int64_sint: "fits_int64 (sint (x :: int64))"
  using sint_ge [of x] sint_lt [of x] by (simp add: fits_int64_def)

lemma sint_of_int_fits:
  assumes "fits_int64 k"
  shows "sint (word_of_int k :: int64) = k"
proof -
  have "sint (word_of_int k :: int64) = signed_take_bit 63 k"
    by (simp add: sint_sbintrunc')
  also have "\<dots> = k"
    using assms by (intro signed_take_bit_int_eq_self) (simp_all add: fits_int64_def)
  finally show ?thesis .
qed

lemma sint_sum_iff:
  assumes "(x :: int64) = word_of_int k"
  shows "sint x = k \<longleftrightarrow> fits_int64 k"
  using assms sint_of_int_fits [of k] fits_int64_sint [of x] by auto

lemma int64_diff_nonneg:
  assumes "0 \<le>s (a :: int64)" and "a \<le>s c"
  shows "0 \<le>s c - a"
proof -
  from assms have a: "0 \<le> sint a" "sint a \<le> sint c"
    by (simp_all add: word_sle_eq)
  have "sint (c - a) = signed_take_bit 63 (sint c - sint a)"
    by (simp add: sint_word_ariths)
  also have "\<dots> = sint c - sint a"
    using a sint_lt [of c] by (intro signed_take_bit_int_eq_self) simp_all
  finally show ?thesis
    using a by (simp add: word_sle_eq)
qed

lemma quantum_value: "quantum = 6"
  by (simp add: quantum_def)

lemma sint_minus_quantum:
  assumes "quantum <s (x :: int64)"
  shows "sint (x - quantum) = sint x - 6"
proof -
  from assms have big: "6 < sint x"
    by (simp add: quantum_value word_sless_alt)
  have "sint (x - quantum) = signed_take_bit 63 (sint x - 6)"
    by (simp add: quantum_value sint_word_ariths)
  also have "\<dots> = sint x - 6"
    using big sint_lt [of x] by (intro signed_take_bit_int_eq_self) simp_all
  finally show ?thesis .
qed

lemma int64_eq_iff: "a = b \<longleftrightarrow> sint (a :: int64) = sint b"
  by (auto intro: signed_word_eqI)

lemmas int64_order = word_sless_alt word_sle_eq int64_eq_iff [of "ArrivalTime a" "ArrivalTime b" for a b]

subsection \<open>Lists and sums\<close>

lemma list_all_update: "list_all Q xs \<Longrightarrow> Q x \<Longrightarrow> list_all Q (xs[i := x])"
  by (induction xs arbitrary: i) (auto split: nat.splits)

lemma done_count_update:
  "i < length cs \<Longrightarrow> \<not> cs ! i \<Longrightarrow> done_count (cs[i := True]) = Suc (done_count cs)"
  unfolding done_count_def
  by (induction cs arbitrary: i) (auto split: nat.splits)

lemma done_count_less:
  "i < length cs \<Longrightarrow> \<not> cs ! i \<Longrightarrow> done_count cs < length cs"
  unfolding done_count_def
  by (metis filter_True length_filter_le nth_mem order_le_imp_less_or_eq length_filter_less)

lemma done_count_open:
  assumes "done_count cs < length cs"
  shows "\<exists>i<length cs. \<not> cs ! i"
proof (rule ccontr)
  assume "\<not> ?thesis"
  then have "\<forall>c\<in>set cs. c" by (auto simp: in_set_conv_nth)
  then have "filter (\<lambda>c. c) cs = cs" by (simp add: filter_id_conv)
  with assms show False by (simp add: done_count_def)
qed

lemma sum_decrease_at:
  fixes f g :: "nat \<Rightarrow> nat"
  assumes "j < n" and "g j < f j" and "\<And>i. i < n \<Longrightarrow> i \<noteq> j \<Longrightarrow> g i = f i"
  shows "(\<Sum>i<n. g i) < (\<Sum>i<n. f i)"
proof (rule sum_strict_mono_ex1)
  show "finite {..<n}" by simp
  show "\<forall>i\<in>{..<n}. g i \<le> f i"
    using assms by (metis lessThan_iff less_imp_le order_refl)
  show "\<exists>i\<in>{..<n}. g i < f i"
    using assms by auto
qed

lemma sum_change_at:
  fixes f g :: "nat \<Rightarrow> int"
  assumes "j < n" and "g j = f j + d" and "\<And>i. i < n \<Longrightarrow> i \<noteq> j \<Longrightarrow> g i = f i"
  shows "(\<Sum>i<n. g i) = (\<Sum>i<n. f i) + d"
proof -
  have "(\<Sum>i<n. g i) = (\<Sum>i<n. f i + (if i = j then d else 0))"
    using assms(2,3) by (intro sum.cong) auto
  also have "\<dots> = (\<Sum>i<n. f i) + (\<Sum>i<n. if i = j then d else 0)"
    by (simp add: sum.distrib)
  also have "(\<Sum>i<n. if i = j then d else 0) = d"
    using assms(1) by simp
  finally show ?thesis .
qed

subsection \<open>The scan for the shortest job\<close>

lemma scan_found_step:
  assumes "scan_found ps cs rs t k acc"
  shows "scan_found ps cs rs t (Suc k) (sjf_scan_step ps cs rs t acc k)"
proof (cases "fst acc")
  case None
  with assms show ?thesis
    by (auto simp: scan_found_def sjf_scan_step_def sjf_candidate_def list_all_iff
        split: option.splits)
next
  case (Some j)
  with assms show ?thesis
    by (auto simp: scan_found_def sjf_scan_step_def sjf_candidate_def list_all_iff
        int64_eval less_Suc_eq split: option.splits)
qed

lemma scan_found_foldl:
  "scan_found ps cs rs t k (foldl (sjf_scan_step ps cs rs t) (None, MaxInt64) [0..<k])"
proof (induction k)
  case 0
  show ?case by (simp add: scan_found_def)
next
  case (Suc k)
  then show ?case by (simp add: scan_found_step)
qed

lemma sjf_scan_found:
  "scan_found ps cs rs t (length ps) (sjf_scan ps cs rs t)"
  unfolding sjf_scan_def by (rule scan_found_foldl)

text \<open>
  What the scan returns. No index: no process is not complete, arrived and below
  \<open>math.MaxInt64\<close>. An index \<open>j\<close>: it is such a process, no such process has a smaller
  remaining burst, and every such process before \<open>j\<close> has a strictly larger one.
\<close>

lemma sjf_scan_None:
  assumes "fst (sjf_scan ps cs rs t) = None" and "i < length ps"
  shows "\<not> sjf_candidate ps cs rs t i"
  using sjf_scan_found [of ps cs rs t] assms
  by (simp add: scan_found_def list_all_iff)

lemma sjf_scan_Some:
  assumes "fst (sjf_scan ps cs rs t) = Some j"
  shows "j < length ps" and "sjf_candidate ps cs rs t j"
    and "\<And>i. i < length ps \<Longrightarrow> sjf_candidate ps cs rs t i \<Longrightarrow> rs ! j \<le>s rs ! i"
    and "\<And>i. i < j \<Longrightarrow> sjf_candidate ps cs rs t i \<Longrightarrow> rs ! j <s rs ! i"
  using sjf_scan_found [of ps cs rs t] assms
  by (auto simp: scan_found_def list_all_iff)

text \<open>
  Claim C8, evaluated. The scan starts from \<open>shortestTime = math.MaxInt64\<close> and selects
  only on a strictly smaller remaining burst. A process whose remaining burst is
  \<open>math.MaxInt64\<close> is never selected: at time 0 the only process has arrived and is not
  complete, yet the scan returns no index and the iteration only advances the clock.
\<close>

theorem C8_eligible_process_not_selected:
  "\<not> s_completed (sjf_init example_max) ! 0 \<and>
   ArrivalTime (example_max ! 0) \<le>s s_currentTime (sjf_init example_max) \<and>
   fst (sjf_scan example_max (s_completed (sjf_init example_max))
          (s_remainingBursts (sjf_init example_max)) (s_currentTime (sjf_init example_max)))
     = None \<and>
   sjf_body example_max (sjf_init example_max) =
     (sjf_init example_max)\<lparr>s_currentTime := 1\<rparr>"
  by (simp add: example_max_def common_eval sjf_eval)

subsection \<open>When the preemptive loop ends\<close>

lemma sjf_body_idle:
  assumes "fst (sjf_scan ps (s_completed s) (s_remainingBursts s) (s_currentTime s)) = None"
  shows "sjf_body ps s = s\<lparr>s_currentTime := s_currentTime s + 1\<rparr>"
  using assms by (simp add: sjf_body_def)

lemma sjf_body_run:
  assumes "fst (sjf_scan ps (s_completed s) (s_remainingBursts s) (s_currentTime s)) = Some i"
    and "i < length (s_remainingBursts s)" and "s_remainingBursts s ! i - 1 \<noteq> 0"
  shows "sjf_body ps s =
    s\<lparr>s_currentTime := s_currentTime s + 1,
      s_remainingBursts := (s_remainingBursts s)[i := s_remainingBursts s ! i - 1]\<rparr>"
  using assms by (simp add: sjf_body_def Let_def)

lemma sjf_body_finish:
  assumes "fst (sjf_scan ps (s_completed s) (s_remainingBursts s) (s_currentTime s)) = Some i"
    and "i < length (s_remainingBursts s)" and "s_remainingBursts s ! i - 1 = 0"
  shows "s_remainingBursts (sjf_body ps s) = (s_remainingBursts s)[i := 0]"
    and "s_completed (sjf_body ps s) = (s_completed s)[i := True]"
    and "s_procDone (sjf_body ps s) = Suc (s_procDone s)"
    and "s_currentTime (sjf_body ps s) = s_currentTime s + 1"
  using assms by (simp_all add: sjf_body_def Let_def)

lemma sjf_body_progress:
  assumes inv: "sjf_inv ps s" and more: "s_procDone s < length ps"
  shows "sjf_inv ps (sjf_body ps s) \<and> (sjf_body ps s, s) \<in> measures [sjf_work, sjf_wrap]"
proof -
  let ?cs = "s_completed s" and ?rs = "s_remainingBursts s" and ?t = "s_currentTime s"
  let ?n = "length ps"
  from inv have len: "length ?rs = ?n" "length ?cs = ?n"
    and cnt: "s_procDone s = done_count ?cs"
    and rng: "\<And>i. i < ?n \<Longrightarrow> \<not> ?cs ! i \<Longrightarrow> 0 <s ?rs ! i \<and> ?rs ! i <s MaxInt64"
    by (auto simp: sjf_inv_def)
  show ?thesis
  proof (cases "fst (sjf_scan ps ?cs ?rs ?t)")
    case None
    then have body: "sjf_body ps s = s\<lparr>s_currentTime := ?t + 1\<rparr>"
      by (rule sjf_body_idle)
    from more cnt len obtain i where i: "i < ?n" "\<not> ?cs ! i"
      using done_count_open [of ?cs] by auto
    have "\<not> sjf_candidate ps ?cs ?rs ?t i"
      using None i(1) by (rule sjf_scan_None)
    with i rng [of i] have late: "\<not> ArrivalTime (ps ! i) \<le>s ?t"
      by (simp add: sjf_candidate_def)
    have "?t \<noteq> MaxInt64"
      using late sle_MaxInt64 [of "ArrivalTime (ps ! i)"] by auto
    then have diff: "MaxInt64 - ?t \<noteq> 0" by simp
    then have "0 < unat (MaxInt64 - ?t)"
      using unat_gt_0 [of "MaxInt64 - ?t"] by blast
    moreover have "unat (MaxInt64 - ?t - 1) = unat (MaxInt64 - ?t) - 1"
      using diff by (rule unat_minus_one)
    ultimately have "unat (MaxInt64 - ?t - 1) < unat (MaxInt64 - ?t)"
      by linarith
    moreover have "s_currentTime (sjf_body ps s) = ?t + 1"
      by (simp add: body)
    moreover have "MaxInt64 - (?t + 1) = MaxInt64 - ?t - 1"
      by simp
    ultimately have "sjf_wrap (sjf_body ps s) < sjf_wrap s"
      unfolding sjf_wrap_def by (simp only:)
    moreover have "s_completed (sjf_body ps s) = ?cs" "s_remainingBursts (sjf_body ps s) = ?rs"
      by (simp_all add: body)
    then have "sjf_work (sjf_body ps s) = sjf_work s"
      unfolding sjf_work_def by (simp only:)
    moreover have "sjf_inv ps (sjf_body ps s)"
      using inv by (simp add: body sjf_inv_def)
    ultimately show ?thesis by simp
  next
    case (Some j)
    have j: "j < ?n" and cand: "sjf_candidate ps ?cs ?rs ?t j"
      using sjf_scan_Some(1,2) [OF Some] by auto
    from cand have open_j: "\<not> ?cs ! j" by (simp add: sjf_candidate_def)
    from rng [OF j open_j] have pos: "0 < sint (?rs ! j)" and top: "?rs ! j <s MaxInt64"
      by (simp_all add: word_sless_alt)
    have dec: "sint (?rs ! j - 1) = sint (?rs ! j) - 1"
      using pos by (intro sint_pred) simp
    show ?thesis
    proof (cases "?rs ! j - 1 = 0")
      case True
      note fin = sjf_body_finish [OF Some _ True, unfolded len, OF j]
      have inv': "sjf_inv ps (sjf_body ps s)"
        unfolding sjf_inv_def
      proof (intro conjI allI impI)
        show "length (s_remainingBursts (sjf_body ps s)) = ?n" by (simp add: fin len)
        show "length (s_completed (sjf_body ps s)) = ?n" by (simp add: fin len)
        show "s_procDone (sjf_body ps s) = done_count (s_completed (sjf_body ps s))"
          using done_count_update [of j ?cs] j open_j len cnt by (simp add: fin)
        fix i assume "i < ?n"
        then show "s_completed (sjf_body ps s) ! i \<or>
            (0 <s s_remainingBursts (sjf_body ps s) ! i \<and>
             s_remainingBursts (sjf_body ps s) ! i <s MaxInt64)"
          using rng [of i] len by (cases "i = j") (auto simp: fin)
      qed
      have "sjf_work (sjf_body ps s) < sjf_work s"
        unfolding sjf_work_def fin length_list_update
      proof (rule sum_decrease_at [of j])
        show "j < length ?cs" using j len by simp
        show "(if ?cs[j := True] ! j then 0 else nat (sint (?rs[j := 0] ! j)))
                < (if ?cs ! j then 0 else nat (sint (?rs ! j)))"
          using j len open_j pos by simp
        fix i assume "i < length ?cs" "i \<noteq> j"
        then show "(if ?cs[j := True] ! i then 0 else nat (sint (?rs[j := 0] ! i)))
                     = (if ?cs ! i then 0 else nat (sint (?rs ! i)))"
          by simp
      qed
      with inv' show ?thesis by simp
    next
      case False
      have body: "sjf_body ps s =
          s\<lparr>s_currentTime := ?t + 1, s_remainingBursts := ?rs[j := ?rs ! j - 1]\<rparr>"
        using sjf_body_run [OF Some _ False] j len by simp
      have nz: "sint (?rs ! j - 1) \<noteq> 0"
        using False by (metis signed_word_eqI sint_0)
      have inv': "sjf_inv ps (sjf_body ps s)"
        unfolding sjf_inv_def body
      proof (intro conjI allI impI)
        fix i assume "i < ?n"
        then show "s_completed (s\<lparr>s_currentTime := ?t + 1,
                      s_remainingBursts := ?rs[j := ?rs ! j - 1]\<rparr>) ! i \<or>
            (0 <s s_remainingBursts (s\<lparr>s_currentTime := ?t + 1,
                      s_remainingBursts := ?rs[j := ?rs ! j - 1]\<rparr>) ! i \<and>
             s_remainingBursts (s\<lparr>s_currentTime := ?t + 1,
                      s_remainingBursts := ?rs[j := ?rs ! j - 1]\<rparr>) ! i <s MaxInt64)"
          using rng [of i] len dec nz pos top
          by (cases "i = j") (auto simp: word_sless_alt)
      qed (simp_all add: len cnt)
      have proj: "s_completed (sjf_body ps s) = ?cs"
        "s_remainingBursts (sjf_body ps s) = ?rs[j := ?rs ! j - 1]"
        by (simp_all add: body)
      have "sjf_work (sjf_body ps s) < sjf_work s"
        unfolding sjf_work_def proj
      proof (rule sum_decrease_at [of j])
        show "j < length ?cs" using j len by simp
        show "(if ?cs ! j then 0 else nat (sint (?rs[j := ?rs ! j - 1] ! j)))
                < (if ?cs ! j then 0 else nat (sint (?rs ! j)))"
          using j len open_j pos dec by simp
        fix i assume "i < length ?cs" "i \<noteq> j"
        then show "(if ?cs ! i then 0 else nat (sint (?rs[j := ?rs ! j - 1] ! i)))
                     = (if ?cs ! i then 0 else nat (sint (?rs ! i)))"
          by simp
      qed
      with inv' show ?thesis by simp
    qed
  qed
qed

lemma sjf_loop_returns:
  "sjf_inv ps s \<Longrightarrow> \<exists>fuel s'. sjf_loop fuel ps s = Some s'"
proof (induction s rule: wf_induct_rule [OF wf_measures [of "[sjf_work, sjf_wrap]"]])
  case (1 s)
  show ?case
  proof (cases "s_procDone s < length ps")
    case False
    then have "sjf_loop 0 ps s = Some s" by simp
    then show ?thesis by blast
  next
    case True
    from sjf_body_progress [OF "1.prems" True]
    obtain fuel s' where "sjf_loop fuel ps (sjf_body ps s) = Some s'"
      using "1.IH" by blast
    with True have "sjf_loop (Suc fuel) ps s = Some s'" by simp
    then show ?thesis by blast
  qed
qed

lemma sjf_inv_init:
  assumes "\<forall>p\<in>set ps. 0 <s BurstDuration p \<and> BurstDuration p <s MaxInt64"
  shows "sjf_inv ps (sjf_init ps)"
  using assms by (simp add: sjf_inv_def sjf_init_def done_count_def)

text \<open>
  With every burst from 1 to \<open>math.MaxInt64 - 1\<close> the loop returns; the clock may wrap
  around on the way.
\<close>

lemma SJF_returns:
  assumes "\<forall>p\<in>set ps. 0 <s BurstDuration p \<and> BurstDuration p <s MaxInt64"
  shows "\<exists>fuel out. SJFSchedule fuel ps = Some out"
  using sjf_loop_returns [OF sjf_inv_init [OF assms]] by (auto simp: SJFSchedule_def)

lemma sjf_body_stuck:
  assumes "sjf_stuck ps s j"
  shows "sjf_stuck ps (sjf_body ps s) j"
proof -
  let ?cs = "s_completed s" and ?rs = "s_remainingBursts s" and ?t = "s_currentTime s"
  from assms have j: "j < length ps" and len: "length ?rs = length ps" "length ?cs = length ps"
    and cnt: "s_procDone s = done_count ?cs" and open_j: "\<not> ?cs ! j"
    and val: "?rs ! j \<le>s 0 \<or> ?rs ! j = MaxInt64"
    by (auto simp: sjf_stuck_def)
  show ?thesis
  proof (cases "fst (sjf_scan ps ?cs ?rs ?t)")
    case None
    with assms show ?thesis
      by (simp add: sjf_body_idle sjf_stuck_def)
  next
    case (Some i)
    have i: "i < length ps" and cand: "sjf_candidate ps ?cs ?rs ?t i"
      using sjf_scan_Some(1,2) [OF Some] by auto
    from cand have open_i: "\<not> ?cs ! i" and below: "?rs ! i <s MaxInt64"
      by (simp_all add: sjf_candidate_def)
    show ?thesis
    proof (cases "i = j")
      case True
      with below val have "?rs ! j \<le>s 0"
        by (auto simp: word_sless_alt)
      then have step: "?rs ! j - 1 \<noteq> 0" "?rs ! j - 1 \<le>s 0 \<or> ?rs ! j - 1 = MaxInt64"
        using nonpositive_pred [of "?rs ! j"] by auto
      have "sjf_body ps s =
          s\<lparr>s_currentTime := ?t + 1, s_remainingBursts := ?rs[j := ?rs ! j - 1]\<rparr>"
        using sjf_body_run [of ps s j] Some True step(1) j len by simp
      then show ?thesis
        using j len cnt open_j step(2) by (simp add: sjf_stuck_def)
    next
      case False
      show ?thesis
      proof (cases "?rs ! i - 1 = 0")
        case True
        note fin = sjf_body_finish [OF Some _ True, unfolded len, OF i]
        show ?thesis
          unfolding sjf_stuck_def fin
          using j len cnt open_j val False done_count_update [of i ?cs] i open_i
          by simp
      next
        case nonzero: False
        have "sjf_body ps s =
            s\<lparr>s_currentTime := ?t + 1, s_remainingBursts := ?rs[i := ?rs ! i - 1]\<rparr>"
          using sjf_body_run [OF Some _ nonzero] i len by simp
        then show ?thesis
          using j len cnt open_j val False by (simp add: sjf_stuck_def)
      qed
    qed
  qed
qed

lemma sjf_loop_stuck: "sjf_stuck ps s j \<Longrightarrow> sjf_loop fuel ps s = None"
proof (induction fuel arbitrary: s)
  case 0
  then show ?case
    using done_count_less [of j "s_completed s"] by (simp add: sjf_stuck_def)
next
  case (Suc fuel)
  from Suc.prems have "s_procDone s < length ps"
    using done_count_less [of j "s_completed s"] by (simp add: sjf_stuck_def)
  then show ?case
    using Suc.IH [OF sjf_body_stuck [OF Suc.prems]] by simp
qed

text \<open>
  With one burst at most 0, or equal to \<open>math.MaxInt64\<close>, the loop never returns: that
  process is decremented past zero, or never selected.
\<close>

lemma SJF_never_returns:
  assumes "j < length ps"
    and "BurstDuration (ps ! j) \<le>s 0 \<or> BurstDuration (ps ! j) = MaxInt64"
  shows "SJFSchedule fuel ps = None"
proof -
  have "sjf_stuck ps (sjf_init ps) j"
    using assms by (simp add: sjf_stuck_def sjf_init_def done_count_def)
  then show ?thesis
    by (simp add: SJFSchedule_def sjf_loop_stuck)
qed

lemma SJF_returns_iff:
  "(\<exists>fuel out. SJFSchedule fuel ps = Some out) \<longleftrightarrow>
     (\<forall>p\<in>set ps. 0 <s BurstDuration p \<and> BurstDuration p <s MaxInt64)"
proof
  assume "\<forall>p\<in>set ps. 0 <s BurstDuration p \<and> BurstDuration p <s MaxInt64"
  then show "\<exists>fuel out. SJFSchedule fuel ps = Some out"
    by (rule SJF_returns)
next
  assume ret: "\<exists>fuel out. SJFSchedule fuel ps = Some out"
  show "\<forall>p\<in>set ps. 0 <s BurstDuration p \<and> BurstDuration p <s MaxInt64"
  proof (rule ccontr)
    assume "\<not> ?thesis"
    then obtain j where j: "j < length ps"
      and bad: "\<not> (0 <s BurstDuration (ps ! j) \<and> BurstDuration (ps ! j) <s MaxInt64)"
      by (auto simp: in_set_conv_nth)
    have "BurstDuration (ps ! j) \<le>s 0 \<or> BurstDuration (ps ! j) = MaxInt64"
      using bad sle_MaxInt64 [of "BurstDuration (ps ! j)"]
      by (auto simp: word_sless_alt word_sle_eq intro: signed_word_eqI)
    with j have "\<And>fuel. SJFSchedule fuel ps = None"
      by (rule SJF_never_returns)
    with ret show False by simp
  qed
qed

text \<open>
  Claim C10, evaluated. The single process has burst \<open>math.MaxInt64\<close>, which is at least 1.
  It is never selected, \<open>procDone\<close> stays 0, and the loop does not return with any amount
  of fuel.
\<close>

theorem C10_sjf_never_returns: "\<forall>fuel. SJFSchedule fuel example_max = None"
  using SJF_never_returns [of 0 example_max]
  by (simp add: example_max_def mkProcess_def)

subsection \<open>The rows of the preemptive scheduler are all written\<close>

lemma sjf_body_rows_inv:
  assumes "sjf_rows_inv ps s"
  shows "sjf_rows_inv ps (sjf_body ps s)"
proof -
  let ?cs = "s_completed s" and ?rs = "s_remainingBursts s" and ?t = "s_currentTime s"
  from assms have len: "length (s_schedule s) = length ps" "length ?cs = length ps"
      "length ?rs = length ps"
    and cnt: "s_procDone s = done_count ?cs"
    and wr: "\<And>i. i < length ps \<Longrightarrow> ?cs ! i \<Longrightarrow> is_written (s_schedule s ! i)"
    by (auto simp: sjf_rows_inv_def)
  show ?thesis
  proof (cases "fst (sjf_scan ps ?cs ?rs ?t)")
    case None
    with assms show ?thesis by (simp add: sjf_body_idle sjf_rows_inv_def)
  next
    case (Some i)
    have i: "i < length ps" and cand: "sjf_candidate ps ?cs ?rs ?t i"
      using sjf_scan_Some(1,2) [OF Some] by auto
    from cand have open_i: "\<not> ?cs ! i" by (simp add: sjf_candidate_def)
    show ?thesis
    proof (cases "?rs ! i - 1 = 0")
      case True
      have sched: "s_schedule (sjf_body ps s) ! i \<noteq> None"
        "length (s_schedule (sjf_body ps s)) = length ps"
        "\<And>k. k \<noteq> i \<Longrightarrow> s_schedule (sjf_body ps s) ! k = s_schedule s ! k"
        using Some True i len by (simp_all add: sjf_body_def Let_def)
      note fin = sjf_body_finish [OF Some _ True, unfolded len, OF i]
      show ?thesis
        unfolding sjf_rows_inv_def
      proof (intro conjI allI impI)
        show "s_procDone (sjf_body ps s) = done_count (s_completed (sjf_body ps s))"
          using done_count_update [of i ?cs] i open_i len cnt by (simp add: fin)
        fix k assume "k < length ps" "s_completed (sjf_body ps s) ! k"
        then show "is_written (s_schedule (sjf_body ps s) ! k)"
          using wr [of k] sched len
          by (cases "k = i") (auto simp: fin is_written_def split: option.splits)
      qed (simp_all add: fin sched len)
    next
      case False
      have "sjf_body ps s =
          s\<lparr>s_currentTime := ?t + 1, s_remainingBursts := ?rs[i := ?rs ! i - 1]\<rparr>"
        using sjf_body_run [OF Some _ False] i len by simp
      with assms show ?thesis by (simp add: sjf_rows_inv_def)
    qed
  qed
qed

lemma sjf_loop_rows_written:
  "sjf_loop fuel ps s = Some s' \<Longrightarrow> sjf_rows_inv ps s
     \<Longrightarrow> length (s_schedule s') = length ps \<and> list_all is_written (s_schedule s')"
proof (induction fuel arbitrary: s)
  case 0
  then have full: "\<not> done_count (s_completed s) < length (s_completed s)" and "s' = s"
    by (auto simp: sjf_rows_inv_def split: if_splits)
  then have "\<forall>i<length ps. s_completed s ! i"
    using done_count_less [of _ "s_completed s"] "0.prems"(2)
    by (auto simp: sjf_rows_inv_def)
  with "0.prems"(2) \<open>s' = s\<close> show ?case
    by (auto simp: sjf_rows_inv_def list_all_length)
next
  case (Suc fuel)
  show ?case
  proof (cases "s_procDone s < length ps")
    case True
    with Suc.prems have "sjf_loop fuel ps (sjf_body ps s) = Some s'" by simp
    then show ?thesis
      using Suc.IH sjf_body_rows_inv [OF Suc.prems(2)] by blast
  next
    case False
    with Suc.prems have "sjf_loop 0 ps s = Some s'" by simp
    then have full: "\<not> done_count (s_completed s) < length (s_completed s)" and "s' = s"
      using Suc.prems(2) by (auto simp: sjf_rows_inv_def split: if_splits)
    then have "\<forall>i<length ps. s_completed s ! i"
      using done_count_less [of _ "s_completed s"] Suc.prems(2)
      by (auto simp: sjf_rows_inv_def)
    with Suc.prems(2) \<open>s' = s\<close> show ?thesis
      by (auto simp: sjf_rows_inv_def list_all_length)
  qed
qed

lemma SJF_rows_written:
  assumes "SJFSchedule fuel ps = Some out"
  shows "length (schedule out) = length ps \<and> list_all is_written (schedule out)"
proof -
  from assms obtain s where run: "sjf_loop fuel ps (sjf_init ps) = Some s"
    and out: "out = sjf_output ps s"
    by (auto simp: SJFSchedule_def)
  have "sjf_rows_inv ps (sjf_init ps)"
    by (simp add: sjf_rows_inv_def sjf_init_def done_count_def)
  with run have "length (s_schedule s) = length ps \<and> list_all is_written (s_schedule s)"
    by (rule sjf_loop_rows_written)
  with out show ?thesis
    by (simp add: sjf_output_def Let_def)
qed

subsection \<open>The round-robin loop always ends\<close>

lemma rr_admit_result:
  "\<exists>j. i \<le> j \<and> (j \<le> length ps \<or> j = i) \<and>
       rr_admit ps t i (q, c) = (q @ [i..<j], c + (j - i))"
proof (induction ps t i "(q, c)" arbitrary: q c rule: rr_admit.induct)
  case (1 ps t i q c)
  show ?case
  proof (cases "i < length ps \<and> ArrivalTime (ps ! i) \<le>s t")
    case True
    from "1.hyps" [OF True] obtain j where j: "Suc i \<le> j" "j \<le> length ps \<or> j = Suc i"
      and res: "rr_admit ps t (Suc i) (q @ [i], Suc c) = ((q @ [i]) @ [Suc i..<j], Suc c + (j - Suc i))"
      by blast
    have "rr_admit ps t i (q, c) = (q @ [i..<j], c + (j - i))"
      using True res j(1) by (subst rr_admit.simps) (simp add: upt_conv_Cons)
    moreover have "i \<le> j" "j \<le> length ps \<or> j = i"
      using j True by auto
    ultimately show ?thesis by blast
  next
    case False
    then have "rr_admit ps t i (q, c) = (q @ [i..<i], c + (i - i))"
      by (subst rr_admit.simps) auto
    then show ?thesis by blast
  qed
qed

lemma rr_body_progress:
  assumes inv: "rr_inv ps s" and more: "r_queue s \<noteq> []"
  shows "rr_inv ps (rr_body ps s) \<and> (rr_body ps s, s) \<in> measures [rr_heavy, rr_light]"
proof -
  let ?rs = "r_remainingBursts s" and ?q = "r_queue s" and ?c = "r_completedProcesses s"
  let ?n = "length ps" and ?idx = "hd (r_queue s)"
  from inv have len: "length ?rs = ?n" and qs: "\<And>k. k \<in> set ?q \<Longrightarrow> k < ?n"
    by (auto simp: rr_inv_def list_all_iff)
  from more qs have idx: "?idx < ?n" by simp
  have tl: "\<And>k. k \<in> set (tl ?q) \<Longrightarrow> k < ?n"
    using qs more by (auto dest: list.set_sel(2))
  show ?thesis
  proof (cases "?rs ! ?idx \<le>s quantum")
    case True
    let ?t = "r_currentTime s + ?rs ! ?idx"
    obtain j where j: "Suc ?c \<le> j" "j \<le> ?n \<or> j = Suc ?c"
      and adm: "rr_admit ps ?t (Suc ?c) (tl ?q, Suc ?c) = (tl ?q @ [Suc ?c..<j], Suc ?c + (j - Suc ?c))"
      using rr_admit_result [of "Suc ?c" ps ?t "tl ?q" "Suc ?c"] by blast
    have fields: "r_remainingBursts (rr_body ps s) = ?rs[?idx := 0]"
      "r_queue (rr_body ps s) = tl ?q @ [Suc ?c..<j]"
      "r_completedProcesses (rr_body ps s) = Suc ?c + (j - Suc ?c)"
      using True adm by (simp_all add: rr_body_def Let_def)
    have inv': "rr_inv ps (rr_body ps s)"
      using len tl j by (auto simp: rr_inv_def list_all_iff fields)
    have "rr_heavy (rr_body ps s) = rr_heavy s"
      unfolding rr_heavy_def fields length_list_update
    proof (rule sum.cong)
      fix k assume "k \<in> {..<length ?rs}"
      then show "(if quantum <s ?rs[?idx := 0] ! k then nat (sint (?rs[?idx := 0] ! k)) else 0)
               = (if quantum <s ?rs ! k then nat (sint (?rs ! k)) else 0)"
        using True by (cases "k = ?idx") (auto simp: quantum_value int64_eval)
    qed simp
    moreover have "rr_light (rr_body ps s) < rr_light s"
      unfolding rr_light_def fields length_list_update
      using j more len by (cases ?q) auto
    ultimately show ?thesis
      using inv' by simp
  next
    case False
    then have big: "quantum <s ?rs ! ?idx"
      by (simp add: int64_eval)
    let ?t = "r_currentTime s + quantum"
    obtain j where j: "?c \<le> j" "j \<le> ?n \<or> j = ?c"
      and adm: "rr_admit ps ?t ?c (tl ?q @ [?idx], ?c) = ((tl ?q @ [?idx]) @ [?c..<j], ?c + (j - ?c))"
      using rr_admit_result [of ?c ps ?t "tl ?q @ [?idx]" ?c] by blast
    have fields: "r_remainingBursts (rr_body ps s) = ?rs[?idx := ?rs ! ?idx - quantum]"
      "r_queue (rr_body ps s) = (tl ?q @ [?idx]) @ [?c..<j]"
      using False adm by (simp_all add: rr_body_def Let_def)
    have inv': "rr_inv ps (rr_body ps s)"
      using len tl j idx by (auto simp: rr_inv_def list_all_iff fields)
    have "rr_heavy (rr_body ps s) < rr_heavy s"
      unfolding rr_heavy_def fields length_list_update
    proof (rule sum_decrease_at [of ?idx])
      show "?idx < length ?rs" using idx len by simp
      show "(if quantum <s ?rs[?idx := ?rs ! ?idx - quantum] ! ?idx
             then nat (sint (?rs[?idx := ?rs ! ?idx - quantum] ! ?idx)) else 0)
            < (if quantum <s ?rs ! ?idx then nat (sint (?rs ! ?idx)) else 0)"
        using big sint_minus_quantum [OF big] idx len
        by (simp add: quantum_value word_sless_alt)
      fix k assume "k < length ?rs" "k \<noteq> ?idx"
      then show "(if quantum <s ?rs[?idx := ?rs ! ?idx - quantum] ! k
             then nat (sint (?rs[?idx := ?rs ! ?idx - quantum] ! k)) else 0)
            = (if quantum <s ?rs ! k then nat (sint (?rs ! k)) else 0)"
        by simp
    qed
    with inv' show ?thesis by simp
  qed
qed

lemma rr_loop_returns:
  "rr_inv ps s \<Longrightarrow> \<exists>fuel s'. rr_loop fuel ps s = Some s'"
proof (induction s rule: wf_induct_rule [OF wf_measures [of "[rr_heavy, rr_light]"]])
  case (1 s)
  show ?case
  proof (cases "r_queue s = []")
    case True
    then have "rr_loop 0 ps s = Some s" by simp
    then show ?thesis by blast
  next
    case False
    from rr_body_progress [OF "1.prems" False]
    obtain fuel s' where "rr_loop fuel ps (rr_body ps s) = Some s'"
      using "1.IH" by blast
    with False have "rr_loop (Suc fuel) ps s = Some s'" by simp
    then show ?thesis by blast
  qed
qed

lemma RR_returns: "\<exists>fuel out. RRSchedule fuel ps = Some out"
proof -
  have "rr_inv (sort_Slice rr_less ps) (rr_init (sort_Slice rr_less ps))"
    by (simp add: rr_inv_def rr_init_def)
  from rr_loop_returns [OF this] show ?thesis
    by (auto simp: RRSchedule_def Let_def)
qed

subsection \<open>More fuel does not change a result\<close>

lemma sjf_loop_more_fuel:
  "sjf_loop fuel ps s = Some s' \<Longrightarrow> sjf_loop (fuel + k) ps s = Some s'"
  by (induction fuel arbitrary: s) (auto simp: sjf_loop_unfold [of k] split: if_splits)

lemma rr_loop_more_fuel:
  "rr_loop fuel ps s = Some s' \<Longrightarrow> rr_loop (fuel + k) ps s = Some s'"
  by (induction fuel arbitrary: s) (auto simp: rr_loop_unfold [of k] split: if_splits)

subsection \<open>The row identities\<close>

lemma fcfs_step_rows_ok:
  "list_all row_ok (f_schedule s) \<Longrightarrow> list_all row_ok (f_schedule (fcfs_step s p))"
  by (simp add: fcfs_step_def Let_def row_ok_def mk_row_def)

lemma fcfs_loop_rows_ok:
  "list_all row_ok (f_schedule s) \<Longrightarrow> list_all row_ok (f_schedule (fcfs_loop s ps))"
  by (induction ps arbitrary: s) (simp_all add: fcfs_step_rows_ok)

lemma FCFS_rows_ok: "list_all row_ok (schedule (FCFSSchedule ps))"
  by (simp add: FCFSSchedule_def Let_def fcfs_loop_rows_ok fcfs_init_def)

lemma sjf_body_rows_ok:
  "list_all opt_row_ok (s_schedule s) \<Longrightarrow> list_all opt_row_ok (s_schedule (sjf_body ps s))"
  by (auto simp: sjf_body_def Let_def opt_row_ok_def row_ok_def mk_row_def
      intro!: list_all_update split: option.splits)

lemma sjf_loop_rows_ok:
  "sjf_loop fuel ps s = Some s' \<Longrightarrow> list_all opt_row_ok (s_schedule s)
     \<Longrightarrow> list_all opt_row_ok (s_schedule s')"
  by (induction fuel arbitrary: s) (auto simp: sjf_body_rows_ok split: if_splits)

lemma SJF_rows_ok:
  assumes "SJFSchedule fuel ps = Some out"
  shows "list_all opt_row_ok (schedule out)"
proof -
  from assms obtain s where run: "sjf_loop fuel ps (sjf_init ps) = Some s"
    and out: "out = sjf_output ps s"
    by (auto simp: SJFSchedule_def)
  have "list_all opt_row_ok (s_schedule (sjf_init ps))"
    by (simp add: sjf_init_def list_all_iff opt_row_ok_def)
  with run have "list_all opt_row_ok (s_schedule s)"
    by (rule sjf_loop_rows_ok)
  with out show ?thesis
    by (simp add: sjf_output_def Let_def)
qed

lemma prio_step_rows_ok:
  "list_all row_ok (p_schedule s) \<Longrightarrow> list_all row_ok (p_schedule (prio_step s p))"
  by (simp add: prio_step_def Let_def row_ok_def mk_row_def)

lemma prio_loop_rows_ok:
  "list_all row_ok (p_schedule s) \<Longrightarrow> list_all row_ok (p_schedule (prio_loop s ps))"
  by (induction ps arbitrary: s) (simp_all add: prio_step_rows_ok)

lemma Priority_rows_ok: "list_all row_ok (schedule (SJFPrioritySchedule ps))"
  by (simp add: SJFPrioritySchedule_def Let_def prio_loop_rows_ok prio_init_def)

lemma rr_row_ok: "row_ok (rr_row pc)"
  by (simp add: rr_row_def Let_def row_ok_def mk_row_def)

lemma RR_rows_ok: "RRSchedule fuel ps = Some out \<Longrightarrow> list_all row_ok (schedule out)"
  by (auto simp: RRSchedule_def rr_output_def Let_def list_all_iff rr_row_ok)

lemma SJF_written_rows_ok:
  assumes "SJFSchedule fuel ps = Some out"
  shows "list_all written_row_ok (schedule out)"
  using SJF_rows_ok [OF assms] SJF_rows_written [OF assms]
  by (auto simp: list_all_iff written_row_ok_def opt_row_ok_def is_written_def
      split: option.splits)

lemma row_signed_iff:
  assumes "row_ok r"
  shows "row_ok_signed r \<longleftrightarrow> row_fits r"
proof -
  from assms have t: "row_turnaround r = word_of_int (sint (row_burst r) + sint (row_wait r))"
    and c: "row_completion r
       = word_of_int (sint (row_arrival r) + sint (row_wait r) + sint (row_burst r))"
    by (simp_all add: row_ok_def)
  show ?thesis
    unfolding row_ok_signed_def row_fits_def
    using sint_sum_iff [OF t] sint_sum_iff [OF c] by simp
qed

lemma row_identities_iff: "row_identities r \<longleftrightarrow> row_ok r"
  using row_signed_iff [of r] by (auto simp: row_identities_def)

text \<open>
  On two processes with arrival 0 and bursts \<open>math.MaxInt64\<close> and 1 the Priority scheduler
  runs the short one first; the row of the long one has wait 1, and its turnaround and
  completion wrap around to the smallest \<open>int64\<close>: as signed values the identities fail.
\<close>

theorem C1_row_identities_counterexample:
  "0 \<le>s ArrivalTime (example_overflow ! 0) \<and> 0 <s BurstDuration (example_overflow ! 0) \<and>
   0 \<le>s ArrivalTime (example_overflow ! 1) \<and> 0 <s BurstDuration (example_overflow ! 1) \<and>
   sint (row_burst (schedule (SJFPrioritySchedule example_overflow) ! 1))
     = 9223372036854775807 \<and>
   sint (row_wait (schedule (SJFPrioritySchedule example_overflow) ! 1)) = 1 \<and>
   sint (row_turnaround (schedule (SJFPrioritySchedule example_overflow) ! 1))
     = - 9223372036854775808 \<and>
   sint (row_completion (schedule (SJFPrioritySchedule example_overflow) ! 1))
     = - 9223372036854775808 \<and>
   \<not> row_ok_signed (schedule (SJFPrioritySchedule example_overflow) ! 1)"
  by (simp add: example_overflow_def row_ok_signed_def common_eval prio_eval MaxInt64_def)

text \<open>
  Claim C1, as amended. Every row that any of the four schedulers emits satisfies
  \<open>turnaround = burst + wait\<close> and \<open>completion = arrival + wait + burst\<close> in the
  wrap-around arithmetic of \<open>int64\<close>, for every input. On the signed values of the row
  the two identities hold exactly when \<open>burst + wait\<close> and \<open>arrival + wait + burst\<close> do
  not overflow an \<open>int64\<close>. The two schedulers whose loop may not end are taken at any
  run that returns; when the preemptive one returns, every row is written.
\<close>

theorem C1_row_identities:
  "(\<forall>r \<in> set (schedule (FCFSSchedule ps)). row_identities r) \<and>
   (\<forall>out. SJFSchedule fuel ps = Some out \<longrightarrow>
      (\<forall>r \<in> set (schedule out). written_row_identities r)) \<and>
   (\<forall>r \<in> set (schedule (SJFPrioritySchedule ps)). row_identities r) \<and>
   (\<forall>out. RRSchedule fuel ps = Some out \<longrightarrow>
      (\<forall>r \<in> set (schedule out). row_identities r))"
proof (intro conjI allI impI)
  show "\<forall>r \<in> set (schedule (FCFSSchedule ps)). row_identities r"
    using FCFS_rows_ok [of ps] by (simp add: list_all_iff row_identities_iff)
  show "\<forall>r \<in> set (schedule (SJFPrioritySchedule ps)). row_identities r"
    using Priority_rows_ok [of ps] by (simp add: list_all_iff row_identities_iff)
next
  fix out
  assume "SJFSchedule fuel ps = Some out"
  then show "\<forall>r \<in> set (schedule out). written_row_identities r"
    using SJF_written_rows_ok [of fuel ps out]
    by (auto simp: list_all_iff written_row_identities_def written_row_ok_def
        row_identities_iff split: option.splits)
next
  fix out
  assume "RRSchedule fuel ps = Some out"
  then show "\<forall>r \<in> set (schedule out). row_identities r"
    using RR_rows_ok [of fuel ps out] by (simp add: list_all_iff row_identities_iff)
qed

text \<open>The four schedulers on the first-come-first-serve example of the specification.\<close>

lemma FCFS_example_two:
  "schedule (FCFSSchedule example_two) =
     [\<lparr>row_id = 1, row_priority = 0, row_burst = 5, row_arrival = 0,
       row_wait = 0, row_turnaround = 5, row_completion = 5\<rparr>,
      \<lparr>row_id = 2, row_priority = 0, row_burst = 3, row_arrival = 1,
       row_wait = 4, row_turnaround = 7, row_completion = 8\<rparr>]"
  by (simp add: example_two_def common_eval fcfs_eval)

lemma Priority_example_two:
  "schedule (SJFPrioritySchedule example_two) =
     [\<lparr>row_id = 1, row_priority = 0, row_burst = 5, row_arrival = 0,
       row_wait = 0, row_turnaround = 5, row_completion = 5\<rparr>,
      \<lparr>row_id = 2, row_priority = 0, row_burst = 3, row_arrival = 1,
       row_wait = 4, row_turnaround = 7, row_completion = 8\<rparr>]"
  by (simp add: example_two_def common_eval prio_eval)

lemma SJF_example_two:
  "SJFSchedule 8 example_two =
     Some \<lparr>schedule =
             [Some \<lparr>row_id = 1, row_priority = 0, row_burst = 5, row_arrival = 0,
                    row_wait = 3, row_turnaround = 8, row_completion = 8\<rparr>,
              Some \<lparr>row_id = 2, row_priority = 0, row_burst = 3, row_arrival = 1,
                    row_wait = 0, row_turnaround = 3, row_completion = 4\<rparr>],
           gantt = [\<lparr>PID = 2, Start = 1, Stop = 4\<rparr>, \<lparr>PID = 1, Start = 6, Stop = 8\<rparr>],
           aveWait = Finite (3 / 2), aveTurnaround = Finite (11 / 2),
           aveThroughput = Finite (1 / 4), processes_after = example_two\<rparr>"
  by (simp add: example_two_def common_eval sjf_eval)

lemma RR_example_two:
  "RRSchedule 2 example_two =
     Some \<lparr>schedule =
             [\<lparr>row_id = 1, row_priority = 0, row_burst = 5, row_arrival = 0,
               row_wait = 0, row_turnaround = 5, row_completion = 5\<rparr>,
              \<lparr>row_id = 2, row_priority = 0, row_burst = 3, row_arrival = 1,
               row_wait = 4, row_turnaround = 7, row_completion = 8\<rparr>],
           gantt = [\<lparr>PID = 1, Start = 0, Stop = 5\<rparr>, \<lparr>PID = 2, Start = 9, Stop = 8\<rparr>],
           aveWait = Finite 2, aveTurnaround = Finite 6,
           aveThroughput = Finite (1 / 4), processes_after = example_two\<rparr>"
  by (simp add: example_two_def common_eval rr_eval)

text \<open>
  On that example no sum overflows: the rows of all four schedulers satisfy the
  identities in both readings.
\<close>

theorem C1_row_identities_witness:
  "list_all row_identities (schedule (FCFSSchedule example_two)) \<and>
   list_all row_fits (schedule (FCFSSchedule example_two)) \<and>
   list_all row_ok_signed (schedule (FCFSSchedule example_two)) \<and>
   length (schedule (FCFSSchedule example_two)) = 2 \<and>
   (\<exists>out. SJFSchedule 8 example_two = Some out \<and>
      list_all written_row_identities (schedule out) \<and>
      list_all row_ok_signed (map the (schedule out)) \<and> length (schedule out) = 2) \<and>
   list_all row_identities (schedule (SJFPrioritySchedule example_two)) \<and>
   list_all row_ok_signed (schedule (SJFPrioritySchedule example_two)) \<and>
   length (schedule (SJFPrioritySchedule example_two)) = 2 \<and>
   (\<exists>out. RRSchedule 2 example_two = Some out \<and> list_all row_identities (schedule out) \<and>
      list_all row_ok_signed (schedule out) \<and> length (schedule out) = 2)"
proof -
  have fits: "list_all row_fits (schedule (FCFSSchedule example_two))"
    by (simp add: FCFS_example_two row_fits_def fits_int64_def)
  have signed:
    "list_all row_ok_signed (schedule (FCFSSchedule example_two))"
    "list_all row_ok_signed (schedule (SJFPrioritySchedule example_two))"
    by (simp_all add: FCFS_example_two Priority_example_two row_ok_signed_def)
  have signed_loops:
    "list_all row_ok_signed (map the (schedule (the (SJFSchedule 8 example_two))))"
    "list_all row_ok_signed (schedule (the (RRSchedule 2 example_two)))"
    by (simp_all add: SJF_example_two RR_example_two row_ok_signed_def)
  have lens: "length (schedule (FCFSSchedule example_two)) = 2"
    "length (schedule (SJFPrioritySchedule example_two)) = 2"
    by (simp_all add: FCFS_example_two Priority_example_two)
  show ?thesis
    using C1_row_identities [of example_two 8] C1_row_identities [of example_two 2]
      fits signed signed_loops lens
    by (simp add: SJF_example_two RR_example_two list_all_iff)
qed

subsection \<open>Round-robin on the specification's example\<close>

text \<open>A first process that is preempted is put in the queue twice.\<close>

lemma rr_preempted_first_queued_twice:
  assumes "ps \<noteq> []" and "quantum <s BurstDuration (ps ! 0)"
    and "ArrivalTime (ps ! 0) \<le>s quantum"
  shows "\<exists>rest. r_queue (rr_body ps (rr_init ps)) = 0 # 0 # rest"
proof -
  from assms(1) have n: "0 < length ps" by simp
  from assms(2) have big: "\<not> BurstDuration (ps ! 0) \<le>s quantum"
    by (simp add: int64_eval)
  have rem0: "map BurstDuration ps ! 0 = BurstDuration (ps ! 0)"
    using n by simp
  obtain j where "rr_admit ps quantum (Suc 0) ([0, 0], Suc 0)
      = ([0, 0] @ [Suc 0..<j], Suc 0 + (j - Suc 0))"
    using rr_admit_result [of "Suc 0" ps quantum "[0, 0]" "Suc 0"] by blast
  then have "rr_admit ps quantum 0 ([0], 0) = (0 # 0 # [Suc 0..<j], Suc 0 + (j - Suc 0))"
    using n assms(3) by (subst rr_admit.simps) simp
  then show ?thesis
    using n big rem0 by (simp add: rr_body_def rr_init_def Let_def)
qed

text \<open>
  Claim C2, evaluated. On \<open>[(1, arrival 0, burst 10), (2, arrival 1, burst 4)]\<close> the
  first iteration preempts process 1 at time 6 with 4 units left and pushes its index
  back; the admission loop then starts at index 0, because \<open>completedProcesses\<close> is
  still 0, so it pushes index 0 a second time before index 1. Process 1 therefore runs
  again and completes at 10, is popped a third time with nothing left, and process 2
  completes last, at 14. On the second input index 2 is never admitted: each completion
  also advances the counter that serves as the admission cursor.
\<close>

theorem C2_round_robin_example:
  "sort_Slice rr_less example_rr = example_rr \<and>
   r_queue (rr_body example_rr (rr_init example_rr)) = [0, 0, 1] \<and>
   r_remainingBursts (rr_body example_rr (rr_init example_rr)) = [4, 4] \<and>
   r_currentTime (rr_body example_rr (rr_init example_rr)) = 6 \<and>
   RRSchedule 4 example_rr =
     Some \<lparr>schedule =
             [\<lparr>row_id = 1, row_priority = 0, row_burst = 10, row_arrival = 0,
               row_wait = 0, row_turnaround = 10, row_completion = 10\<rparr>,
              \<lparr>row_id = 2, row_priority = 0, row_burst = 4, row_arrival = 1,
               row_wait = 9, row_turnaround = 13, row_completion = 14\<rparr>],
           gantt =
             [\<lparr>PID = 1, Start = 0, Stop = 10\<rparr>, \<lparr>PID = 1, Start = 0, Stop = 10\<rparr>,
              \<lparr>PID = 2, Start = 19, Stop = 14\<rparr>],
           aveWait = Finite (9 / 2), aveTurnaround = Finite (33 / 2),
           aveThroughput = Finite (1 / 7), processes_after = example_rr\<rparr> \<and>
   (\<exists>out. RRSchedule 3 example_skip = Some out \<and>
      map PID (gantt out) = [1, 2, 4] \<and>
      map row_completion (schedule out) = [3, 6, 0, 9])"
  by (simp add: example_rr_def example_skip_def common_eval rr_eval)

subsection \<open>The insertion sort returns a sorted permutation\<close>

lemma mset_insert_left: "mset (insert_left lt x ys) = add_mset x (mset ys)"
  by (induction ys) simp_all

lemma mset_insertion_loop: "mset (insertion_loop lt left xs) = mset left + mset xs"
  by (induction xs arbitrary: left) (simp_all add: mset_insert_left)

lemma mset_sort_Slice: "mset (sort_Slice lt xs) = mset xs"
  by (simp add: sort_Slice_def mset_insertion_loop)

lemma set_insert_left: "set (insert_left lt x ys) = insert x (set ys)"
  using mset_insert_left [of lt x ys, THEN arg_cong, of set_mset] by simp

lemma sorted_insert_left:
  assumes tr: "\<And>a b c. le a b \<Longrightarrow> le b c \<Longrightarrow> le a c"
    and tot: "\<And>a b. le a b \<or> le b a"
    and lt: "\<And>a b. lt a b \<longleftrightarrow> \<not> le b a"
  shows "sorted_wrt (\<lambda>a b. le b a) ys \<Longrightarrow> sorted_wrt (\<lambda>a b. le b a) (insert_left lt x ys)"
proof (induction ys)
  case Nil
  then show ?case by simp
next
  case (Cons y ys)
  show ?case
  proof (cases "lt x y")
    case True
    then have "le x y" using lt tot by blast
    with Cons True show ?thesis by (auto simp: set_insert_left)
  next
    case False
    then have "le y x" using lt by blast
    with Cons False show ?thesis using tr by auto
  qed
qed

lemma sorted_insertion_loop:
  assumes tr: "\<And>a b c. le a b \<Longrightarrow> le b c \<Longrightarrow> le a c"
    and tot: "\<And>a b. le a b \<or> le b a"
    and lt: "\<And>a b. lt a b \<longleftrightarrow> \<not> le b a"
  shows "sorted_wrt (\<lambda>a b. le b a) left \<Longrightarrow> sorted_wrt le (insertion_loop lt left xs)"
proof (induction xs arbitrary: left)
  case Nil
  then show ?case by (simp add: sorted_wrt_rev)
next
  case (Cons x xs)
  have "sorted_wrt (\<lambda>a b. le b a) (insert_left lt x left)"
    using sorted_insert_left [of le lt left x] tr tot lt Cons.prems by blast
  then show ?case by (simp add: Cons.IH)
qed

lemma sorted_sort_Slice:
  assumes "\<And>a b c. le a b \<Longrightarrow> le b c \<Longrightarrow> le a c"
    and "\<And>a b. le a b \<or> le b a"
    and "\<And>a b. lt a b \<longleftrightarrow> \<not> le b a"
  shows "sorted_wrt le (sort_Slice lt xs)"
proof -
  have "sorted_wrt (\<lambda>a b. le b a) []" by simp
  then show ?thesis
    unfolding sort_Slice_def using sorted_insertion_loop [of le lt "[]" xs] assms by blast
qed

lemma sorted_priority: "sorted_wrt arrival_burst_le (sort_Slice priority_less xs)"
proof (rule sorted_sort_Slice)
  fix a b c :: Process
  show "arrival_burst_le a b \<or> arrival_burst_le b a"
    unfolding arrival_burst_le_def int64_order by linarith
  show "priority_less a b \<longleftrightarrow> \<not> arrival_burst_le b a"
    unfolding arrival_burst_le_def priority_less_def int64_order by (simp split: if_splits) linarith
  assume "arrival_burst_le a b" "arrival_burst_le b c"
  then show "arrival_burst_le a c"
    unfolding arrival_burst_le_def int64_order by linarith
qed

lemma sorted_rr: "sorted_wrt arrival_le (sort_Slice rr_less xs)"
proof (rule sorted_sort_Slice)
  fix a b c :: Process
  show "arrival_le a b \<or> arrival_le b a"
    by (auto simp: arrival_le_def int64_eval)
  show "rr_less a b \<longleftrightarrow> \<not> arrival_le b a"
    by (auto simp: arrival_le_def rr_less_def int64_eval)
  assume "arrival_le a b" "arrival_le b c"
  then show "arrival_le a c"
    by (auto simp: arrival_le_def int64_eval)
qed

subsection \<open>The caller's slice\<close>

text \<open>The Priority scheduler leaves the two processes of the example swapped.\<close>

theorem C3_caller_slice_counterexample:
  "processes_after (SJFPrioritySchedule example_unsorted) \<noteq> example_unsorted"
  by (simp add: example_unsorted_def common_eval prio_eval)

text \<open>
  Claim C3, as amended. First-come-first-serve and the preemptive scheduler leave the
  caller's slice as it was. The Priority scheduler and round-robin sort it in place:
  when they return it holds the same processes with the same field values, reordered
  by arrival then burst, and by arrival.
\<close>

theorem C3_caller_slice:
  "processes_after (FCFSSchedule ps) = ps \<and>
   (\<forall>out. SJFSchedule fuel ps = Some out \<longrightarrow> processes_after out = ps) \<and>
   mset (processes_after (SJFPrioritySchedule ps)) = mset ps \<and>
   sorted_wrt arrival_burst_le (processes_after (SJFPrioritySchedule ps)) \<and>
   (\<forall>out. RRSchedule fuel ps = Some out \<longrightarrow>
      mset (processes_after out) = mset ps \<and> sorted_wrt arrival_le (processes_after out))"
  by (auto simp: FCFSSchedule_def SJFSchedule_def sjf_output_def SJFPrioritySchedule_def
      RRSchedule_def rr_output_def Let_def mset_sort_Slice sorted_priority sorted_rr)

text \<open>The four schedulers on the example whose second process arrives first.\<close>

theorem C3_caller_slice_witness:
  "processes_after (FCFSSchedule example_unsorted) = example_unsorted \<and>
   (\<exists>out. SJFSchedule 14 example_unsorted = Some out \<and>
      processes_after out = example_unsorted) \<and>
   processes_after (SJFPrioritySchedule example_unsorted)
     = [mkProcess 2 0 8 0, mkProcess 1 2 6 0] \<and>
   mset (processes_after (SJFPrioritySchedule example_unsorted)) = mset example_unsorted \<and>
   sorted_wrt arrival_burst_le (processes_after (SJFPrioritySchedule example_unsorted)) \<and>
   (\<exists>out. RRSchedule 4 example_unsorted = Some out \<and>
      processes_after out = [mkProcess 2 0 8 0, mkProcess 1 2 6 0] \<and>
      mset (processes_after out) = mset example_unsorted \<and>
      sorted_wrt arrival_le (processes_after out))"
proof -
  obtain out where sjf: "SJFSchedule 14 example_unsorted = Some out"
    by (simp add: example_unsorted_def common_eval sjf_eval)
  have prio: "processes_after (SJFPrioritySchedule example_unsorted)
     = [mkProcess 2 0 8 0, mkProcess 1 2 6 0]"
    by (simp add: example_unsorted_def common_eval prio_eval)
  have "\<exists>out. RRSchedule 4 example_unsorted = Some out \<and>
      processes_after out = [mkProcess 2 0 8 0, mkProcess 1 2 6 0]"
    by (simp add: example_unsorted_def common_eval rr_eval)
  then obtain out' where rr: "RRSchedule 4 example_unsorted = Some out'"
    and rr_after: "processes_after out' = [mkProcess 2 0 8 0, mkProcess 1 2 6 0]"
    by blast
  show ?thesis
    using C3_caller_slice [of example_unsorted 14] C3_caller_slice [of example_unsorted 4]
      sjf prio rr rr_after
    by simp
qed

subsection \<open>The empty input\<close>

text \<open>First-come-first-serve on no processes computes a throughput, and it is NaN.\<close>

theorem C4_empty_input_counterexample:
  "aveThroughput (FCFSSchedule []) = NaN"
  by (simp add: common_eval fcfs_eval)

text \<open>
  Claim C4, as amended. No scheduler signals an empty slice (round-robin tests the length
  only to leave its queue empty). Each runs its loop zero times, hands on no rows and no
  Gantt slices, and computes the three averages as \<open>0 / 0\<close>, which is NaN; the two loops
  with fuel return whatever the fuel.
\<close>

theorem C4_empty_input:
  "FCFSSchedule [] = empty_output \<and>
   SJFSchedule fuel [] = Some empty_output \<and>
   SJFPrioritySchedule [] = empty_output \<and>
   RRSchedule fuel [] = Some empty_output"
  by (simp add: common_eval fcfs_eval sjf_eval prio_eval rr_eval empty_output_def)

subsection \<open>The waiting time of first-come-first-serve\<close>

lemma fcfs_loop_old_rows:
  "k < length (f_schedule s) \<Longrightarrow> f_schedule (fcfs_loop s ps) ! k = f_schedule s ! k"
  by (induction ps arbitrary: s) (simp_all add: fcfs_step_def Let_def nth_append)

lemma fcfs_step_row:
  "f_schedule (fcfs_step s p) ! length (f_schedule s) =
     mk_row p (f_waitingTime (fcfs_step s p))
       (BurstDuration p + f_waitingTime (fcfs_step s p))
       (BurstDuration p + ArrivalTime p + f_waitingTime (fcfs_step s p))"
  by (simp add: fcfs_step_def Let_def)

lemma fcfs_step_fields:
  "f_waitingTime (fcfs_step s p) =
     (if 0 <s ArrivalTime p then f_serviceTime s - ArrivalTime p else f_waitingTime s)"
  "f_serviceTime (fcfs_step s p) = f_serviceTime s + BurstDuration p"
  "length (f_schedule (fcfs_step s p)) = Suc (length (f_schedule s))"
  by (simp_all add: fcfs_step_def Let_def)

lemma fcfs_loop_wait:
  "i < length ps \<Longrightarrow>
   row_wait (f_schedule (fcfs_loop s ps) ! (length (f_schedule s) + i)) =
     (if 0 <s ArrivalTime (ps ! i)
      then f_serviceTime s + sum_list (map BurstDuration (take i ps)) - ArrivalTime (ps ! i)
      else if i = 0 then f_waitingTime s
      else row_wait (f_schedule (fcfs_loop s ps) ! (length (f_schedule s) + i - 1)))"
proof (induction ps arbitrary: s i)
  case Nil
  then show ?case by simp
next
  case (Cons p ps)
  have first: "row_wait (f_schedule (fcfs_loop (fcfs_step s p) ps) ! length (f_schedule s))
                 = f_waitingTime (fcfs_step s p)"
    by (simp add: fcfs_loop_old_rows fcfs_step_fields(3) fcfs_step_row mk_row_def)
  show ?case
  proof (cases i)
    case 0
    with first show ?thesis by (simp add: fcfs_step_fields)
  next
    case (Suc k)
    with Cons.prems have k: "k < length ps" by simp
    show ?thesis
      using Cons.IH [OF k, of "fcfs_step s p"] first Suc
      by (cases k) (simp_all add: fcfs_step_fields(2,3) add.assoc)
  qed
qed

text \<open>
  The wait the code reports for the process at index \<open>i\<close>: with a positive arrival, the
  sum of the earlier bursts minus the arrival, with no lower bound; otherwise the wait
  of the row before, and 0 for the first row.
\<close>

lemma FCFS_wait_formula:
  assumes "i < length ps"
  shows "row_wait (schedule (FCFSSchedule ps) ! i) =
     (if 0 <s ArrivalTime (ps ! i)
      then sum_list (map BurstDuration (take i ps)) - ArrivalTime (ps ! i)
      else if i = 0 then 0
      else row_wait (schedule (FCFSSchedule ps) ! (i - 1)))"
  using fcfs_loop_wait [OF assms, of fcfs_init]
  by (simp add: FCFSSchedule_def Let_def fcfs_init_def)

text \<open>
  Claim C5, evaluated. On \<open>[(1, arrival 0, burst 1), (2, arrival 5, burst 1)]\<close> the
  second process is visited with \<open>serviceTime = 1\<close> and arrival 5: the reported wait is
  \<open>1 - 5 = -4\<close>, not \<open>max(0, 1 - 5) = 0\<close>, and its slice starts at 1, before it arrives.
\<close>

theorem C5_fcfs_wait_not_clamped:
  "map row_wait (schedule (FCFSSchedule example_gap)) = [0, - 4] \<and>
   map Start (gantt (FCFSSchedule example_gap)) = [0, 1]"
  by (simp add: example_gap_def common_eval fcfs_eval)

subsection \<open>Waiting times below zero\<close>

text \<open>
  The Priority scheduler moves its clock to the arrival of a process that is late, so
  with no negative arrival time none of its waits is negative.
\<close>

lemma prio_step_wait_nonneg:
  assumes "0 \<le>s ArrivalTime p" and "list_all wait_nonneg (p_schedule s)"
  shows "list_all wait_nonneg (p_schedule (prio_step s p))"
proof -
  have "0 \<le>s p_currentTime s - ArrivalTime p" if "\<not> p_currentTime s <s ArrivalTime p"
    using that assms(1) by (intro int64_diff_nonneg) (simp_all add: int64_eval)
  with assms(2) show ?thesis
    by (simp add: prio_step_def Let_def wait_nonneg_def mk_row_def)
qed

lemma prio_loop_wait_nonneg:
  "list_all (\<lambda>p. 0 \<le>s ArrivalTime p) ps \<Longrightarrow> list_all wait_nonneg (p_schedule s)
     \<Longrightarrow> list_all wait_nonneg (p_schedule (prio_loop s ps))"
  by (induction ps arbitrary: s) (simp_all add: prio_step_wait_nonneg)

lemma Priority_wait_nonneg:
  assumes "list_all (\<lambda>p. 0 \<le>s ArrivalTime p) ps"
  shows "list_all wait_nonneg (schedule (SJFPrioritySchedule ps))"
proof -
  have "set (sort_Slice priority_less ps) = set ps"
    using mset_sort_Slice [of priority_less ps] by (metis set_mset_mset)
  with assms have "list_all (\<lambda>p. 0 \<le>s ArrivalTime p) (sort_Slice priority_less ps)"
    by (simp add: list_all_iff)
  then show ?thesis
    by (simp add: SJFPrioritySchedule_def Let_def prio_loop_wait_nonneg prio_init_def)
qed

text \<open>
  The preemptive scheduler completes a process only after it has run for its whole
  burst, each unit at or after its arrival; while the clock does not wrap around, the
  wait it reports is not negative.
\<close>

lemma sjf_done_work_step:
  assumes "j < length ps" and "sjf_left s' j = sjf_left s j - 1"
    and "\<And>i. i < length ps \<Longrightarrow> i \<noteq> j \<Longrightarrow> sjf_left s' i = sjf_left s i"
  shows "sjf_done_work ps s' = sjf_done_work ps s + 1"
  unfolding sjf_done_work_def
  using assms by (intro sum_change_at [of j]) simp_all

lemma sjf_left_nonneg:
  assumes "sjf_inv ps s" and "i < length ps"
  shows "0 \<le> sjf_left s i"
  using assms by (auto simp: sjf_inv_def sjf_left_def word_sless_alt)

lemma sjf_done_work_upper:
  assumes "sjf_inv ps s" and "j < length ps" and "\<not> s_completed s ! j"
  shows "sjf_done_work ps s + sint (s_remainingBursts s ! j)
           \<le> (\<Sum>i<length ps. sint (BurstDuration (ps ! i)))"
proof -
  have "sjf_left s j \<le> (\<Sum>i<length ps. sjf_left s i)"
    using assms(2) sjf_left_nonneg [OF assms(1)]
    by (intro member_le_sum) simp_all
  moreover have "sjf_done_work ps s
      = (\<Sum>i<length ps. sint (BurstDuration (ps ! i))) - (\<Sum>i<length ps. sjf_left s i)"
    by (simp add: sjf_done_work_def sum_subtractf)
  moreover have "sjf_left s j = sint (s_remainingBursts s ! j)"
    using assms(3) by (simp add: sjf_left_def)
  ultimately show ?thesis by simp
qed

lemma sjf_done_work_nonneg:
  assumes "sjf_fits ps A" and "sjf_clock_inv ps A s"
  shows "0 \<le> sjf_done_work ps s"
  unfolding sjf_done_work_def
proof (rule sum_nonneg)
  fix i assume "i \<in> {..<length ps}"
  then have i: "i < length ps" by simp
  then have "0 < sint (BurstDuration (ps ! i))"
    using assms(1) by (auto simp: sjf_fits_def list_all_length word_sless_alt)
  then show "0 \<le> sint (BurstDuration (ps ! i)) - sjf_left s i"
    using assms(2) i by (auto simp: sjf_clock_inv_def sjf_left_def)
qed

lemma sjf_body_finish_row:
  assumes "fst (sjf_scan ps (s_completed s) (s_remainingBursts s) (s_currentTime s)) = Some i"
    and "i < length (s_remainingBursts s)" and "s_remainingBursts s ! i - 1 = 0"
  shows "\<exists>turnaround. s_schedule (sjf_body ps s) = (s_schedule s)
    [i := Some (mk_row (ps ! i)
       (s_currentTime s + 1 - BurstDuration (ps ! i) - ArrivalTime (ps ! i))
       turnaround (s_currentTime s + 1))]"
  using assms by (simp add: sjf_body_def Let_def) blast

lemma sjf_body_clock:
  assumes fits: "sjf_fits ps A" and inv: "sjf_inv ps s" and clk: "sjf_clock_inv ps A s"
    and more: "s_procDone s < length ps"
  shows "sjf_clock_inv ps A (sjf_body ps s)"
proof -
  let ?cs = "s_completed s" and ?rs = "s_remainingBursts s" and ?t = "s_currentTime s"
  let ?n = "length ps"
  let ?B = "\<Sum>i<length ps. sint (BurstDuration (ps ! i))"
  from inv have len: "length ?rs = ?n" "length ?cs = ?n"
    and cnt: "s_procDone s = done_count ?cs"
    and rng: "\<And>i. i < ?n \<Longrightarrow> \<not> ?cs ! i \<Longrightarrow> 0 <s ?rs ! i \<and> ?rs ! i <s MaxInt64"
    by (auto simp: sjf_inv_def)
  from fits have arr: "\<And>i. i < ?n \<Longrightarrow> 0 \<le> sint (ArrivalTime (ps ! i))
        \<and> sint (ArrivalTime (ps ! i)) \<le> A"
    and room: "A + ?B < 9223372036854775807"
    by (auto simp: sjf_fits_def list_all_length word_sle_eq)
  from clk have t0: "0 \<le> sint ?t" and t1: "sint ?t \<le> A + sjf_done_work ps s"
    and run: "\<And>i. i < ?n \<Longrightarrow> \<not> ?cs ! i \<Longrightarrow>
        sint (?rs ! i) \<le> sint (BurstDuration (ps ! i)) \<and>
        (sint (?rs ! i) < sint (BurstDuration (ps ! i)) \<longrightarrow>
           sint (ArrivalTime (ps ! i)) + (sint (BurstDuration (ps ! i)) - sint (?rs ! i))
             \<le> sint ?t)"
    and rows: "list_all opt_wait_nonneg (s_schedule s)"
    by (auto simp: sjf_clock_inv_def)
  show ?thesis
  proof (cases "fst (sjf_scan ps ?cs ?rs ?t)")
    case None
    then have body: "sjf_body ps s = s\<lparr>s_currentTime := ?t + 1\<rparr>"
      by (rule sjf_body_idle)
    from more cnt len obtain i where i: "i < ?n" "\<not> ?cs ! i"
      using done_count_open [of ?cs] by auto
    have "\<not> sjf_candidate ps ?cs ?rs ?t i"
      using None i(1) by (rule sjf_scan_None)
    with i rng [of i] have "sint ?t < sint (ArrivalTime (ps ! i))"
      by (simp add: sjf_candidate_def int64_eval)
    with arr [OF i(1)] have early: "sint ?t < A" by simp
    have "0 \<le> ?B"
      using fits by (intro sum_nonneg) (auto simp: sjf_fits_def list_all_length word_sless_alt)
    with early room have "sint ?t < 9223372036854775807" by simp
    then have next_t: "sint (?t + 1) = sint ?t + 1" by (rule sint_succ)
    have "s_completed (sjf_body ps s) = ?cs" "s_remainingBursts (sjf_body ps s) = ?rs"
      by (simp_all add: body)
    then have same: "sjf_done_work ps (sjf_body ps s) = sjf_done_work ps s"
      unfolding sjf_done_work_def sjf_left_def by (simp only:)
    have work: "0 \<le> sjf_done_work ps s"
      using fits clk by (rule sjf_done_work_nonneg)
    show ?thesis
      unfolding sjf_clock_inv_def same
    proof (intro conjI allI impI)
      show "0 \<le> sint (s_currentTime (sjf_body ps s))"
        using t0 next_t by (simp add: body)
      show "sint (s_currentTime (sjf_body ps s)) \<le> A + sjf_done_work ps s"
        using early next_t work by (simp add: body)
      show "list_all opt_wait_nonneg (s_schedule (sjf_body ps s))"
        using rows by (simp add: body)
    next
      fix k assume k: "k < ?n" and op: "\<not> s_completed (sjf_body ps s) ! k"
      then have op': "\<not> ?cs ! k" by (simp add: body)
      show "sint (s_remainingBursts (sjf_body ps s) ! k) \<le> sint (BurstDuration (ps ! k))"
        using run [OF k op'] by (simp add: body)
      assume "sint (s_remainingBursts (sjf_body ps s) ! k) < sint (BurstDuration (ps ! k))"
      then show "sint (ArrivalTime (ps ! k))
          + (sint (BurstDuration (ps ! k)) - sint (s_remainingBursts (sjf_body ps s) ! k))
          \<le> sint (s_currentTime (sjf_body ps s))"
        using run [OF k op'] next_t by (simp add: body)
    qed
  next
    case (Some j)
    have j: "j < ?n" and cand: "sjf_candidate ps ?cs ?rs ?t j"
      using sjf_scan_Some(1,2) [OF Some] by auto
    from cand have open_j: "\<not> ?cs ! j" and here: "sint (ArrivalTime (ps ! j)) \<le> sint ?t"
      by (simp_all add: sjf_candidate_def word_sle_eq)
    from rng [OF j open_j] have pos: "0 < sint (?rs ! j)"
      by (simp add: word_sless_alt)
    have dec: "sint (?rs ! j - 1) = sint (?rs ! j) - 1"
      using pos by (intro sint_pred) simp
    have "sjf_done_work ps s + sint (?rs ! j) \<le> ?B"
      using inv j open_j by (rule sjf_done_work_upper)
    with t1 pos room have "sint ?t < 9223372036854775807" by simp
    then have next_t: "sint (?t + 1) = sint ?t + 1" by (rule sint_succ)
    have ct: "s_currentTime (sjf_body ps s) = ?t + 1"
      using Some j len by (simp add: sjf_body_def Let_def)
    show ?thesis
    proof (cases "?rs ! j - 1 = 0")
      case True
      note fin = sjf_body_finish [OF Some _ True, unfolded len, OF j]
      obtain turnaround where row: "s_schedule (sjf_body ps s) = (s_schedule s)
          [j := Some (mk_row (ps ! j)
             (?t + 1 - BurstDuration (ps ! j) - ArrivalTime (ps ! j)) turnaround (?t + 1))]"
        using sjf_body_finish_row [OF Some _ True] j len by auto
      from True dec have one: "sint (?rs ! j) = 1" by simp
      have work: "sjf_done_work ps (sjf_body ps s) = sjf_done_work ps s + 1"
      proof (rule sjf_done_work_step [OF j])
        show "sjf_left (sjf_body ps s) j = sjf_left s j - 1"
          using j len open_j one by (simp add: sjf_left_def fin)
        fix i assume "i < ?n" "i \<noteq> j"
        then show "sjf_left (sjf_body ps s) i = sjf_left s i"
          by (simp add: sjf_left_def fin)
      qed
      let ?b = "BurstDuration (ps ! j)" and ?a = "ArrivalTime (ps ! j)"
      have done_at: "sint ?a + sint ?b \<le> sint ?t + 1"
        using run [OF j open_j] one here by auto
      have bpos: "0 \<le> sint ?b"
        using run [OF j open_j] pos by simp
      have d1: "sint (?t + 1 - ?b) = sint ?t + 1 - sint ?b"
        using sint_diff [of ?b "?t + 1"] bpos done_at arr [OF j] next_t by simp
      have d2: "sint (?t + 1 - ?b - ?a) = sint ?t + 1 - sint ?b - sint ?a"
        using sint_diff [of ?a "?t + 1 - ?b"] d1 done_at arr [OF j] by simp
      have new_row: "opt_wait_nonneg (Some (mk_row (ps ! j) (?t + 1 - ?b - ?a)
          turnaround (?t + 1)))"
        using d2 done_at by (simp add: opt_wait_nonneg_def wait_nonneg_def mk_row_def word_sle_eq)
      show ?thesis
        unfolding sjf_clock_inv_def work
      proof (intro conjI allI impI)
        show "0 \<le> sint (s_currentTime (sjf_body ps s))"
          using t0 next_t by (simp add: ct)
        show "sint (s_currentTime (sjf_body ps s)) \<le> A + (sjf_done_work ps s + 1)"
          using t1 next_t by (simp add: ct)
        show "list_all opt_wait_nonneg (s_schedule (sjf_body ps s))"
          unfolding row using rows new_row by (rule list_all_update)
      next
        fix i assume i: "i < ?n" and op: "\<not> s_completed (sjf_body ps s) ! i"
        then have "i \<noteq> j" using j len by (auto simp: fin)
        with op i len have op': "\<not> ?cs ! i" by (simp add: fin)
        show "sint (s_remainingBursts (sjf_body ps s) ! i) \<le> sint (BurstDuration (ps ! i))"
          using run [OF i op'] \<open>i \<noteq> j\<close> by (simp add: fin)
        assume "sint (s_remainingBursts (sjf_body ps s) ! i) < sint (BurstDuration (ps ! i))"
        then show "sint (ArrivalTime (ps ! i))
            + (sint (BurstDuration (ps ! i)) - sint (s_remainingBursts (sjf_body ps s) ! i))
            \<le> sint (s_currentTime (sjf_body ps s))"
          using run [OF i op'] \<open>i \<noteq> j\<close> next_t by (simp add: fin ct)
      qed
    next
      case False
      have body: "sjf_body ps s =
          s\<lparr>s_currentTime := ?t + 1, s_remainingBursts := ?rs[j := ?rs ! j - 1]\<rparr>"
        using sjf_body_run [OF Some _ False] j len by simp
      have work: "sjf_done_work ps (sjf_body ps s) = sjf_done_work ps s + 1"
      proof (rule sjf_done_work_step [OF j])
        show "sjf_left (sjf_body ps s) j = sjf_left s j - 1"
          using j len open_j dec by (simp add: sjf_left_def body)
        fix i assume "i < ?n" "i \<noteq> j"
        then show "sjf_left (sjf_body ps s) i = sjf_left s i"
          by (simp add: sjf_left_def body)
      qed
      show ?thesis
        unfolding sjf_clock_inv_def work
      proof (intro conjI allI impI)
        show "0 \<le> sint (s_currentTime (sjf_body ps s))"
          using t0 next_t by (simp add: ct)
        show "sint (s_currentTime (sjf_body ps s)) \<le> A + (sjf_done_work ps s + 1)"
          using t1 next_t by (simp add: ct)
        show "list_all opt_wait_nonneg (s_schedule (sjf_body ps s))"
          using rows by (simp add: body)
      next
        fix i assume i: "i < ?n" and op: "\<not> s_completed (sjf_body ps s) ! i"
        then have op': "\<not> ?cs ! i" by (simp add: body)
        show "sint (s_remainingBursts (sjf_body ps s) ! i) \<le> sint (BurstDuration (ps ! i))"
          using run [OF i op'] dec i len by (cases "i = j") (simp_all add: body)
        assume "sint (s_remainingBursts (sjf_body ps s) ! i) < sint (BurstDuration (ps ! i))"
        then show "sint (ArrivalTime (ps ! i))
            + (sint (BurstDuration (ps ! i)) - sint (s_remainingBursts (sjf_body ps s) ! i))
            \<le> sint (s_currentTime (sjf_body ps s))"
          using run [OF i op'] dec i len here next_t
          by (cases "i = j") (auto simp: body)
      qed
    qed
  qed
qed

lemma sjf_loop_clock:
  "sjf_loop fuel ps s = Some s' \<Longrightarrow> sjf_fits ps A \<Longrightarrow> sjf_inv ps s \<Longrightarrow> sjf_clock_inv ps A s
     \<Longrightarrow> sjf_clock_inv ps A s'"
proof (induction fuel arbitrary: s)
  case 0
  then show ?case by (simp split: if_splits)
next
  case (Suc fuel)
  show ?case
  proof (cases "s_procDone s < length ps")
    case True
    with Suc.prems(1) have "sjf_loop fuel ps (sjf_body ps s) = Some s'" by simp
    moreover have "sjf_inv ps (sjf_body ps s)"
      using sjf_body_progress [OF Suc.prems(3) True] by simp
    moreover have "sjf_clock_inv ps A (sjf_body ps s)"
      using Suc.prems(2,3,4) True by (rule sjf_body_clock)
    ultimately show ?thesis
      using Suc.IH Suc.prems(2) by blast
  next
    case False
    with Suc.prems show ?thesis by simp
  qed
qed

lemma SJF_wait_nonneg:
  assumes "sjf_fits ps A" and "SJFSchedule fuel ps = Some out"
  shows "list_all opt_wait_nonneg (schedule out)"
proof -
  from assms(2) obtain s where run: "sjf_loop fuel ps (sjf_init ps) = Some s"
    and out: "out = sjf_output ps s"
    by (auto simp: SJFSchedule_def)
  have bursts: "\<forall>p\<in>set ps. 0 <s BurstDuration p \<and> BurstDuration p <s MaxInt64"
  proof
    fix p assume "p \<in> set ps"
    then obtain i where i: "i < length ps" "p = ps ! i"
      by (auto simp: in_set_conv_nth)
    have pos: "0 < sint (BurstDuration p)" and "0 \<le> A"
      using assms(1) \<open>p \<in> set ps\<close> by (auto simp: sjf_fits_def list_all_iff int64_eval)
    have "sint (BurstDuration (ps ! i)) \<le> (\<Sum>i<length ps. sint (BurstDuration (ps ! i)))"
      using assms(1) i(1)
      by (intro member_le_sum) (auto simp: sjf_fits_def list_all_length word_sless_alt)
    with assms(1) \<open>0 \<le> A\<close> i(2) have "sint (BurstDuration p) < 9223372036854775807"
      by (simp add: sjf_fits_def)
    with pos show "0 <s BurstDuration p \<and> BurstDuration p <s MaxInt64"
      by (simp add: word_sless_alt sint_MaxInt64)
  qed
  then have inv: "sjf_inv ps (sjf_init ps)"
    by (rule sjf_inv_init)
  have "sjf_done_work ps (sjf_init ps) = 0"
    by (simp add: sjf_done_work_def sjf_left_def sjf_init_def)
  moreover have "0 \<le> A"
    using assms(1) by (simp add: sjf_fits_def)
  ultimately have "sjf_clock_inv ps A (sjf_init ps)"
    by (simp add: sjf_clock_inv_def) (simp add: sjf_init_def list_all_iff opt_wait_nonneg_def)
  with run assms(1) inv have "sjf_clock_inv ps A s"
    by (rule sjf_loop_clock)
  with out show ?thesis
    by (simp add: sjf_output_def Let_def sjf_clock_inv_def)
qed

text \<open>
  Claim C6, evaluated. On \<open>[(1, arrival 0, burst 2), (2, arrival 10, burst 3)]\<close>, sorted
  by arrival and with positive bursts, first-come-first-serve reports the wait \<open>-8\<close> for
  process 2. Round-robin empties its queue at time 2, before process 2 arrives, and ends:
  process 2 never runs, its completion time stays 0 and its wait is \<open>0 - 3 - 10 = -13\<close>.
\<close>

theorem C6_negative_wait:
  "map (sint \<circ> row_wait) (schedule (FCFSSchedule example_idle)) = [0, - 8] \<and>
   (\<exists>out. RRSchedule 1 example_idle = Some out \<and>
      map (sint \<circ> row_wait) (schedule out) = [0, - 13] \<and>
      map row_completion (schedule out) = [2, 0] \<and> map PID (gantt out) = [1])"
  by (simp add: example_idle_def common_eval fcfs_eval rr_eval)

subsection \<open>Gantt slices of the preemptive scheduler\<close>

lemma completion_slices_snoc:
  assumes "completion_slices ps gs" and "i < length ps" and "completion_slice (ps ! i) g"
  shows "completion_slices ps (gs @ [g])"
  using assms by (auto simp: completion_slices_def list_ex_iff)

lemma sjf_body_slices:
  assumes "completion_slices ps (s_gantt s)"
  shows "completion_slices ps (s_gantt (sjf_body ps s))"
proof (cases "fst (sjf_scan ps (s_completed s) (s_remainingBursts s) (s_currentTime s))")
  case None
  with assms show ?thesis by (simp add: sjf_body_idle)
next
  case (Some i)
  then have i: "i < length ps" by (rule sjf_scan_Some(1))
  show ?thesis
  proof (cases "(s_remainingBursts s)[i := s_remainingBursts s ! i - 1] ! i = 0")
    case True
    with Some have "s_gantt (sjf_body ps s) = s_gantt s @
        [\<lparr>PID = ProcessID (ps ! i),
          Start = s_currentTime s + 1 - BurstDuration (ps ! i)
            + (s_currentTime s + 1 - BurstDuration (ps ! i) - ArrivalTime (ps ! i)),
          Stop = s_currentTime s + 1\<rparr>]"
      by (simp add: sjf_body_def Let_def)
    with assms i show ?thesis
      by (simp add: completion_slices_snoc completion_slice_def)
  next
    case False
    with Some assms show ?thesis by (simp add: sjf_body_def Let_def)
  qed
qed

lemma sjf_loop_slices:
  "sjf_loop fuel ps s = Some s' \<Longrightarrow> completion_slices ps (s_gantt s)
     \<Longrightarrow> completion_slices ps (s_gantt s')"
  by (induction fuel arbitrary: s) (auto simp: sjf_body_slices split: if_splits)

lemma SJF_slices:
  assumes "SJFSchedule fuel ps = Some out"
  shows "completion_slices ps (gantt out)"
proof -
  from assms obtain s where run: "sjf_loop fuel ps (sjf_init ps) = Some s"
    and out: "out = sjf_output ps s"
    by (auto simp: SJFSchedule_def)
  have "completion_slices ps (s_gantt (sjf_init ps))"
    by (simp add: sjf_init_def completion_slices_def)
  with run have "completion_slices ps (s_gantt s)"
    by (rule sjf_loop_slices)
  with out show ?thesis
    by (simp add: sjf_output_def Let_def)
qed

lemma rr_body_gantt:
  "r_gantt (rr_body ps s) =
     (if r_remainingBursts s ! hd (r_queue s) \<le>s quantum
      then r_gantt s @
        [\<lparr>PID = ProcessID (ps ! hd (r_queue s)),
          Start = r_currentTime s + r_remainingBursts s ! hd (r_queue s)
              - BurstDuration (ps ! hd (r_queue s))
            + (r_currentTime s + r_remainingBursts s ! hd (r_queue s)
              - BurstDuration (ps ! hd (r_queue s)) - ArrivalTime (ps ! hd (r_queue s))),
          Stop = r_currentTime s + r_remainingBursts s ! hd (r_queue s)\<rparr>]
      else r_gantt s)"
proof (cases "r_remainingBursts s ! hd (r_queue s) \<le>s quantum")
  case True
  then show ?thesis by (simp add: rr_body_def Let_def)
next
  case False
  then show ?thesis by (simp add: rr_body_def Let_def)
qed

lemma rr_body_slices:
  assumes "rr_inv ps s" and "r_queue s \<noteq> []" and "completion_slices ps (r_gantt s)"
  shows "completion_slices ps (r_gantt (rr_body ps s))"
proof -
  from assms(1,2) have idx: "hd (r_queue s) < length ps"
    by (auto simp: rr_inv_def list_all_iff)
  show ?thesis
  proof (cases "r_remainingBursts s ! hd (r_queue s) \<le>s quantum")
    case True
    show ?thesis
      unfolding rr_body_gantt using True
      by (simp add: completion_slices_snoc [OF assms(3) idx] completion_slice_def)
  next
    case False
    with assms(3) show ?thesis by (simp add: rr_body_gantt)
  qed
qed

lemma rr_loop_slices:
  "rr_loop fuel ps s = Some s' \<Longrightarrow> rr_inv ps s \<Longrightarrow> completion_slices ps (r_gantt s)
     \<Longrightarrow> completion_slices ps (r_gantt s')"
proof (induction fuel arbitrary: s)
  case 0
  then show ?case by (simp split: if_splits)
next
  case (Suc fuel)
  show ?case
  proof (cases "r_queue s = []")
    case True
    with Suc.prems show ?thesis by simp
  next
    case False
    with Suc.prems have "rr_loop fuel ps (rr_body ps s) = Some s'" by simp
    moreover have "rr_inv ps (rr_body ps s)"
      using rr_body_progress [OF Suc.prems(2) False] by simp
    moreover have "completion_slices ps (r_gantt (rr_body ps s))"
      using Suc.prems(2) False Suc.prems(3) by (rule rr_body_slices)
    ultimately show ?thesis by (rule Suc.IH)
  qed
qed

lemma RR_slices:
  assumes "RRSchedule fuel ps = Some out"
  shows "completion_slices (processes_after out) (gantt out)"
proof -
  let ?qs = "sort_Slice rr_less ps"
  from assms obtain s where run: "rr_loop fuel ?qs (rr_init ?qs) = Some s"
    and out: "out = rr_output ?qs s"
    by (auto simp: RRSchedule_def Let_def)
  have "rr_inv ?qs (rr_init ?qs)"
    by (simp add: rr_inv_def rr_init_def)
  moreover have "completion_slices ?qs (r_gantt (rr_init ?qs))"
    by (simp add: rr_init_def completion_slices_def)
  ultimately have "completion_slices ?qs (r_gantt s)"
    using run rr_loop_slices by blast
  with out show ?thesis
    by (simp add: rr_output_def Let_def)
qed

text \<open>
  Claim C7, evaluated. The slice recorded at a completion starts at
  \<open>currentTime - burst + wait\<close>: the wait is added, not subtracted. On the
  specification's own example process 1 (burst 8, wait 9) gets the slice from 18 to 17
  and process 3 (burst 9, wait 15) the slice from 32 to 26.
\<close>

theorem C7_slice_start_not_before_stop:
  "\<exists>out. SJFSchedule 26 example_srtf = Some out \<and>
     gantt out =
       [\<lparr>PID = 2, Start = 1, Stop = 5\<rparr>, \<lparr>PID = 4, Start = 7, Stop = 10\<rparr>,
        \<lparr>PID = 1, Start = 18, Stop = 17\<rparr>, \<lparr>PID = 3, Start = 32, Stop = 26\<rparr>] \<and>
     map (map_option row_wait) (schedule out) = [Some 9, Some 0, Some 15, Some 2]"
  by (simp add: example_srtf_def common_eval sjf_eval)

subsection \<open>The Priority scheduler\<close>

lemma insert_left_map:
  assumes "\<And>a b. lt (f a) (f b) = lt a b"
  shows "insert_left lt (f x) (map f ys) = map f (insert_left lt x ys)"
  by (induction ys) (simp_all add: assms)

lemma insertion_loop_map:
  assumes "\<And>a b. lt (f a) (f b) = lt a b"
  shows "insertion_loop lt (map f left) (map f xs) = map f (insertion_loop lt left xs)"
proof (induction xs arbitrary: left)
  case Nil
  show ?case by (simp add: rev_map)
next
  case (Cons x xs)
  show ?case
    using Cons.IH [of "insert_left lt x left"]
    by (simp add: insert_left_map [of lt f, OF assms])
qed

lemma sort_Slice_map:
  assumes "\<And>a b. lt (f a) (f b) = lt a b"
  shows "sort_Slice lt (map f xs) = map f (sort_Slice lt xs)"
  using insertion_loop_map [of lt f "[]" xs, OF assms] by (simp add: sort_Slice_def)

lemma sort_Slice_clear_priority:
  "sort_Slice priority_less (map clear_priority xs)
     = map clear_priority (sort_Slice priority_less xs)"
  by (rule sort_Slice_map) (simp add: priority_less_def clear_priority_def)

lemma prio_step_clear:
  "prio_step (prio_state_clear s) (clear_priority p) = prio_state_clear (prio_step s p)"
  by (simp add: prio_step_def prio_state_clear_def clear_priority_def row_clear_priority_def
      mk_row_def Let_def)

lemma prio_loop_clear:
  "prio_loop (prio_state_clear s) (map clear_priority ps) = prio_state_clear (prio_loop s ps)"
  by (induction ps arbitrary: s) (simp_all add: prio_step_clear)

lemma prio_init_clear: "prio_state_clear prio_init = prio_init"
  by (simp add: prio_state_clear_def prio_init_def)

lemma prio_loop_clear_init:
  "prio_loop prio_init (map clear_priority ps) = prio_state_clear (prio_loop prio_init ps)"
  using prio_loop_clear [of prio_init ps] by (simp only: prio_init_clear)

lemma Priority_clear:
  "SJFPrioritySchedule (map clear_priority ps) =
     (SJFPrioritySchedule ps)
       \<lparr>schedule := map row_clear_priority (schedule (SJFPrioritySchedule ps)),
        processes_after := map clear_priority (processes_after (SJFPrioritySchedule ps))\<rparr>"
  by (simp add: SJFPrioritySchedule_def Let_def sort_Slice_clear_priority
      prio_loop_clear_init prio_state_clear_def)

lemma prio_loop_rows:
  "map row_process (p_schedule (prio_loop s ps)) = map row_process (p_schedule s) @ ps"
  by (induction ps arbitrary: s)
     (simp_all add: prio_step_def Let_def row_process_def mk_row_def)

lemma prio_loop_gantt:
  "map PID (p_gantt (prio_loop s ps)) = map PID (p_gantt s) @ map ProcessID ps"
  by (induction ps arbitrary: s) (simp_all add: prio_step_def Let_def)

text \<open>
  Claim C9. The Priority scheduler visits the processes in the order of the slice sorted
  by arrival, then burst (signed): the sorted slice is a permutation of the input, it is
  ordered, and the rows and the Gantt slices follow it one for one. Two inputs that
  differ only in priorities give the same rows up to the priority column, the same Gantt
  slices and the same averages.
\<close>

theorem C9_priority_ignored:
  "mset (processes_after (SJFPrioritySchedule ps)) = mset ps \<and>
   sorted_wrt arrival_burst_le (processes_after (SJFPrioritySchedule ps)) \<and>
   map row_process (schedule (SJFPrioritySchedule ps))
     = processes_after (SJFPrioritySchedule ps) \<and>
   map PID (gantt (SJFPrioritySchedule ps))
     = map ProcessID (processes_after (SJFPrioritySchedule ps)) \<and>
   (map clear_priority ps = map clear_priority qs \<longrightarrow>
      map row_clear_priority (schedule (SJFPrioritySchedule ps))
        = map row_clear_priority (schedule (SJFPrioritySchedule qs)) \<and>
      gantt (SJFPrioritySchedule ps) = gantt (SJFPrioritySchedule qs) \<and>
      aveWait (SJFPrioritySchedule ps) = aveWait (SJFPrioritySchedule qs) \<and>
      aveTurnaround (SJFPrioritySchedule ps) = aveTurnaround (SJFPrioritySchedule qs) \<and>
      aveThroughput (SJFPrioritySchedule ps) = aveThroughput (SJFPrioritySchedule qs))"
proof (intro conjI impI)
  show "mset (processes_after (SJFPrioritySchedule ps)) = mset ps"
    by (simp add: SJFPrioritySchedule_def Let_def mset_sort_Slice)
  show "sorted_wrt arrival_burst_le (processes_after (SJFPrioritySchedule ps))"
    by (simp add: SJFPrioritySchedule_def Let_def sorted_priority)
  show "map row_process (schedule (SJFPrioritySchedule ps))
          = processes_after (SJFPrioritySchedule ps)"
    by (simp add: SJFPrioritySchedule_def Let_def prio_loop_rows prio_init_def)
  show "map PID (gantt (SJFPrioritySchedule ps))
          = map ProcessID (processes_after (SJFPrioritySchedule ps))"
    by (simp add: SJFPrioritySchedule_def Let_def prio_loop_gantt prio_init_def)
next
  assume "map clear_priority ps = map clear_priority qs"
  then have eq: "SJFPrioritySchedule (map clear_priority ps)
                   = SJFPrioritySchedule (map clear_priority qs)"
    by simp
  show "map row_clear_priority (schedule (SJFPrioritySchedule ps))
          = map row_clear_priority (schedule (SJFPrioritySchedule qs))"
    using arg_cong [OF eq, of schedule] by (simp add: Priority_clear)
  show "gantt (SJFPrioritySchedule ps) = gantt (SJFPrioritySchedule qs)"
    using arg_cong [OF eq, of gantt] by (simp add: Priority_clear)
  show "aveWait (SJFPrioritySchedule ps) = aveWait (SJFPrioritySchedule qs)"
    using arg_cong [OF eq, of aveWait] by (simp add: Priority_clear)
  show "aveTurnaround (SJFPrioritySchedule ps) = aveTurnaround (SJFPrioritySchedule qs)"
    using arg_cong [OF eq, of aveTurnaround] by (simp add: Priority_clear)
  show "aveThroughput (SJFPrioritySchedule ps) = aveThroughput (SJFPrioritySchedule qs)"
    using arg_cong [OF eq, of aveThroughput] by (simp add: Priority_clear)
qed

text \<open>Two inputs with the same ids, arrivals and bursts and different priorities.\<close>

theorem C9_priority_ignored_witness:
  "map clear_priority example_priorities = map clear_priority example_priorities' \<and>
   processes_after (SJFPrioritySchedule example_priorities)
     = [mkProcess 2 0 8 1, mkProcess 3 0 8 5, mkProcess 1 2 6 9] \<and>
   map row_process (schedule (SJFPrioritySchedule example_priorities))
     = [mkProcess 2 0 8 1, mkProcess 3 0 8 5, mkProcess 1 2 6 9] \<and>
   map row_priority (schedule (SJFPrioritySchedule example_priorities')) = [7, 2, 1] \<and>
   map row_clear_priority (schedule (SJFPrioritySchedule example_priorities))
     = map row_clear_priority (schedule (SJFPrioritySchedule example_priorities')) \<and>
   gantt (SJFPrioritySchedule example_priorities)
     = gantt (SJFPrioritySchedule example_priorities') \<and>
   aveThroughput (SJFPrioritySchedule example_priorities)
     = aveThroughput (SJFPrioritySchedule example_priorities')"
proof -
  have same: "map clear_priority example_priorities = map clear_priority example_priorities'"
    by (simp add: example_priorities_def example_priorities'_def clear_priority_def
        mkProcess_def)
  have sorted: "processes_after (SJFPrioritySchedule example_priorities)
     = [mkProcess 2 0 8 1, mkProcess 3 0 8 5, mkProcess 1 2 6 9]"
    by (simp add: example_priorities_def common_eval prio_eval)
  have prios: "map row_priority (schedule (SJFPrioritySchedule example_priorities')) = [7, 2, 1]"
    by (simp add: example_priorities'_def common_eval prio_eval)
  show ?thesis
    using C9_priority_ignored [of example_priorities example_priorities'] same sorted prios
    by simp
qed

end
